theory Spec2Isabelle
  imports Complex_Main "HOL-Library.Log_Nat" "HOL-Library.Sublist"
    "HOL-Library.Code_Target_Nat"
begin

section \<open>Text and the interpreter's tables\<close>

text \<open>
  A Python \<^verbatim>\<open>str\<close> is a sequence of Unicode code points and is modelled as a list of
  natural numbers. A string literal of the source is written \<open>ascii ''...''\<close>.
\<close>

type_synonym pystr = "nat list"

definition ascii :: "string \<Rightarrow> pystr" where
  "ascii s = map of_char s"

text \<open>
  The source classifies characters through \<^verbatim>\<open>re\<close> (\<^verbatim>\<open>\s\<close>, \<^verbatim>\<open>\d\<close>) and through the \<^verbatim>\<open>str\<close>
  methods \<^verbatim>\<open>strip\<close>, \<^verbatim>\<open>lower\<close> and \<^verbatim>\<open>isdigit\<close>, and it converts with \<^verbatim>\<open>int()\<close> and
  \<^verbatim>\<open>float()\<close>. What these do on a code point is decided by the Unicode character database
  compiled into the interpreter, which is not part of the repository and changes from one
  interpreter version to the next. The tables are therefore parameters of the model:
  \<^item> \<open>env_isspace\<close>: the white space of \<^verbatim>\<open>str.strip()\<close>, \<^verbatim>\<open>str.isspace()\<close> and \<^verbatim>\<open>\s\<close>;
  \<^item> \<open>env_decimal\<close>: the decimal digits, with their values; these are the characters
    matched by \<^verbatim>\<open>\d\<close> and read as digits by \<^verbatim>\<open>int()\<close> and \<^verbatim>\<open>float()\<close>;
  \<^item> \<open>env_isdigit\<close>: the characters for which \<^verbatim>\<open>str.isdigit()\<close> holds (the decimal digits
    and more, such as superscript digits);
  \<^item> \<open>env_lower\<close>: \<^verbatim>\<open>str.lower()\<close>, a function on strings (one character may become
    several, and the result for a capital sigma depends on its neighbours);
  \<^item> \<open>env_max_str_digits\<close>: the interpreter's limit on the number of digits \<^verbatim>\<open>int()\<close>
    accepts in a string (\<^verbatim>\<open>sys.get_int_max_str_digits()\<close>, 4300 unless changed; 0 switches
    the limit off).
\<close>

record py_env =
  env_isspace :: "nat \<Rightarrow> bool"
  env_decimal :: "nat \<Rightarrow> nat option"
  env_isdigit :: "nat \<Rightarrow> bool"
  env_lower :: "pystr \<Rightarrow> pystr"
  env_max_str_digits :: nat

text \<open>
  The facts about the tables that the proofs use. They hold of every interpreter: on ASCII
  the decimal digits are \<^verbatim>\<open>0\<close> to \<^verbatim>\<open>9\<close> with their usual values and the white space is
  tab, LF, VT, FF, CR, FS, GS, RS, US and space; a decimal digit has a value below ten and
  is not white space; the digit limit is 0 or at least 640.
\<close>

definition wf_env :: "py_env \<Rightarrow> bool" where
  "wf_env env \<longleftrightarrow>
     (\<forall>c d. env_decimal env c = Some d \<longrightarrow> d < 10 \<and> \<not> env_isspace env c)
     \<and> (\<forall>c < 128. env_decimal env c = (if 48 \<le> c \<and> c \<le> 57 then Some (c - 48) else None))
     \<and> (\<forall>c < 128. env_isspace env c \<longleftrightarrow> (9 \<le> c \<and> c \<le> 13) \<or> (28 \<le> c \<and> c \<le> 32))
     \<and> (env_max_str_digits env = 0 \<or> 640 \<le> env_max_str_digits env)"

datatype py_error = ValueError | OverflowError

definition bind_err :: "'e + 'a \<Rightarrow> ('a \<Rightarrow> 'e + 'b) \<Rightarrow> 'e + 'b" where
  "bind_err m f = (case m of Inl e \<Rightarrow> Inl e | Inr x \<Rightarrow> f x)"

text \<open>\<^verbatim>\<open>\d\<close>: a decimal digit of any script.\<close>

definition is_decimal :: "py_env \<Rightarrow> nat \<Rightarrow> bool" where
  "is_decimal env c = (env_decimal env c \<noteq> None)"

definition py_lower :: "py_env \<Rightarrow> pystr \<Rightarrow> pystr" where
  "py_lower env s = env_lower env s"

definition strip_with :: "(nat \<Rightarrow> bool) \<Rightarrow> pystr \<Rightarrow> pystr" where
  "strip_with p s = rev (dropWhile p (rev (dropWhile p s)))"

text \<open>\<^verbatim>\<open>s.strip()\<close>\<close>

definition py_strip :: "py_env \<Rightarrow> pystr \<Rightarrow> pystr" where
  "py_strip env s = strip_with (env_isspace env) s"

text \<open>\<^verbatim>\<open>kw in s\<close> on strings: \<open>kw\<close> occurs in \<open>s\<close> as a contiguous substring.\<close>

fun py_in :: "pystr \<Rightarrow> pystr \<Rightarrow> bool" where
  "py_in kw [] = (kw = [])"
| "py_in kw (c # cs) = (prefix kw (c # cs) \<or> py_in kw cs)"

text \<open>\<^verbatim>\<open>s.isdigit()\<close>: not empty, and every character is a digit.\<close>

definition py_isdigit :: "py_env \<Rightarrow> pystr \<Rightarrow> bool" where
  "py_isdigit env s = (s \<noteq> [] \<and> list_all (env_isdigit env) s)"

text \<open>\<^verbatim>\<open>s.replace(c, "")\<close> for a one-character \<open>c\<close>.\<close>

definition remove_char :: "nat \<Rightarrow> pystr \<Rightarrow> pystr" where
  "remove_char c s = filter (\<lambda>x. x \<noteq> c) s"

text \<open>
  \<^verbatim>\<open>re.sub(r"\[\d+\]", "", text)\<close>: every bracketed numeral is removed, left to right
  (91 is \<^verbatim>\<open>[\<close>, 93 is \<^verbatim>\<open>]\<close>).
\<close>

function remove_footnotes :: "py_env \<Rightarrow> pystr \<Rightarrow> pystr" where
  "remove_footnotes env [] = []"
| "remove_footnotes env (c # cs) =
     (if c = 91 \<and> takeWhile (is_decimal env) cs \<noteq> [] \<and>
         (case dropWhile (is_decimal env) cs of [] \<Rightarrow> False | d # _ \<Rightarrow> d = 93)
      then remove_footnotes env (tl (dropWhile (is_decimal env) cs))
      else c # remove_footnotes env cs)"
  by pat_completeness auto
termination
  by (relation "measure (\<lambda>(env, s). length s)")
     (auto simp: less_Suc_eq_le intro: order_trans [OF diff_le_self length_dropWhile_le])

text \<open>\<^verbatim>\<open>re.sub(r"\s+", " ", text)\<close>: every maximal run of white space becomes one space.\<close>

function collapse_ws :: "py_env \<Rightarrow> pystr \<Rightarrow> pystr" where
  "collapse_ws env [] = []"
| "collapse_ws env (c # cs) =
     (if env_isspace env c then 32 # collapse_ws env (dropWhile (env_isspace env) cs)
      else c # collapse_ws env cs)"
  by pat_completeness auto
termination
  by (relation "measure (\<lambda>(env, s). length s)") (auto simp: less_Suc_eq_le length_dropWhile_le)

text \<open>
  \<^verbatim>\<open>
  def clean_text(text: str) -> str:
      text = text.strip()
      text = re.sub(r"\[\d+\]", "", text)   # remove footnote refs [1]
      text = re.sub(r"\s+", " ", text)
      return text.strip()
  \<close>
\<close>

definition clean_text :: "py_env \<Rightarrow> pystr \<Rightarrow> pystr" where
  "clean_text env t = py_strip env (collapse_ws env (remove_footnotes env (py_strip env t)))"

section \<open>Integer parsing\<close>

text \<open>
  Before they parse, \<^verbatim>\<open>int()\<close> and \<^verbatim>\<open>float()\<close> bring their argument to ASCII: a code point
  below 127 is kept, any other white space becomes a space, any other decimal digit becomes
  the ASCII digit of its value, and anything else becomes \<^verbatim>\<open>?\<close> (63), which no literal
  contains.
\<close>

definition to_ascii :: "py_env \<Rightarrow> nat \<Rightarrow> nat" where
  "to_ascii env c =
     (if c < 127 then c
      else if env_isspace env c then 32
      else case env_decimal env c of None \<Rightarrow> 63 | Some d \<Rightarrow> 48 + d)"

definition is_ascii_digit :: "nat \<Rightarrow> bool" where
  "is_ascii_digit c = (48 \<le> c \<and> c \<le> 57)"

text \<open>The blanks that may surround an ASCII literal: tab, LF, VT, FF, CR, space.\<close>

definition is_c_space :: "nat \<Rightarrow> bool" where
  "is_c_space c = ((9 \<le> c \<and> c \<le> 13) \<or> c = 32)"

definition dec_value :: "pystr \<Rightarrow> nat" where
  "dec_value s = foldl (\<lambda>acc c. 10 * acc + (c - 48)) 0 s"

text \<open>
  The body of a decimal literal accepted by \<^verbatim>\<open>int()\<close>: digits, with single underscores
  (95) allowed between two digits.
\<close>

fun int_body_ok :: "pystr \<Rightarrow> bool" where
  "int_body_ok [] = False"
| "int_body_ok [c] = is_ascii_digit c"
| "int_body_ok (c # d # cs) =
     (is_ascii_digit c \<and> (if d = 95 then int_body_ok cs else int_body_ok (d # cs)))"

text \<open>
  \<^verbatim>\<open>int(s)\<close> for a string: blanks around, an optional sign (45 is \<^verbatim>\<open>-\<close>, 43 is \<^verbatim>\<open>+\<close>), the
  body. A string that is not such a literal raises \<^verbatim>\<open>ValueError\<close>, and so does a literal
  with more digits than the interpreter's limit.
\<close>

definition py_int :: "py_env \<Rightarrow> pystr \<Rightarrow> py_error + int" where
  "py_int env s =
     (let t = strip_with is_c_space (map (to_ascii env) s);
          neg = (t \<noteq> [] \<and> hd t = 45);
          body = (if t \<noteq> [] \<and> (hd t = 45 \<or> hd t = 43) then tl t else t);
          digits = filter is_ascii_digit body
      in if \<not> int_body_ok body then Inl ValueError
         else if env_max_str_digits env \<noteq> 0 \<and> env_max_str_digits env < length digits
         then Inl ValueError
         else Inr ((if neg then - 1 else 1) * int (dec_value digits)))"

text \<open>
  \<^verbatim>\<open>
  def parse_int(value: str) -> int | None:
      cleaned = re.sub(r"[^\d]", "", value)
      return int(cleaned) if cleaned else None
  \<close>
  No exception is caught: a \<^verbatim>\<open>ValueError\<close> of \<^verbatim>\<open>int()\<close> leaves the function.
\<close>

definition parse_int :: "py_env \<Rightarrow> pystr \<Rightarrow> py_error + int option" where
  "parse_int env v =
     (let cleaned = filter (is_decimal env) v
      in if cleaned \<noteq> [] then bind_err (py_int env cleaned) (\<lambda>n. Inr (Some n)) else Inr None)"

text \<open>The string has more decimal digits than the interpreter's limit allows.\<close>

definition exceeds_digit_limit :: "py_env \<Rightarrow> pystr \<Rightarrow> bool" where
  "exceeds_digit_limit env s =
     (env_max_str_digits env \<noteq> 0 \<and>
      env_max_str_digits env < length (filter (is_decimal env) s))"

section \<open>Float parsing\<close>

text \<open>
  A Python \<^verbatim>\<open>float\<close> is an IEEE binary64 number. The values that arise here are never
  negative and never NaN (signs and letters are stripped before \<^verbatim>\<open>float()\<close> is called),
  so a float is either a finite non-negative rational that is representable as a double,
  or positive infinity.
\<close>

datatype pyfloat = Finite rat | Infinity

text \<open>Rounding to the nearest integer, ties to the even one.\<close>

definition round_half_even :: "rat \<Rightarrow> int" where
  "round_half_even q =
     (let f = \<lfloor>q\<rfloor>; d = q - of_int f
      in if d < 1 / 2 then f else if 1 / 2 < d then f + 1 else if even f then f else f + 1)"

text \<open>
  The exponent \<open>e\<close> of the unit in the last place of the double nearest to \<open>q > 0\<close>:
  \<open>2 ^ 52 \<le> q / 2 ^ e < 2 ^ 53\<close>, but not below the subnormal exponent \<open>- 1074\<close>.
\<close>

definition double_exponent :: "rat \<Rightarrow> int" where
  "double_exponent q =
     (let e0 = bitlen (fst (quotient_of q)) - bitlen (snd (quotient_of q)) - 53;
          e1 = (if q / (2 powi e0) < 2 ^ 53 then e0 else e0 + 1)
      in max e1 (- 1074))"

text \<open>The largest double, and the least value that rounds to infinity.\<close>

definition max_double :: rat where
  "max_double = 2 ^ 1024 - 2 ^ 971"

definition overflow_threshold :: rat where
  "overflow_threshold = 2 ^ 1024 - 2 ^ 970"

text \<open>Correct rounding of a non-negative rational to binary64 (round to nearest, ties to even).\<close>

definition nearest_double :: "rat \<Rightarrow> pyfloat" where
  "nearest_double q =
     (if q \<le> 0 then Finite 0
      else if overflow_threshold \<le> q then Infinity
      else Finite (of_int (round_half_even (q / (2 powi (double_exponent q))))
                   * (2 powi (double_exponent q))))"

text \<open>
  The decimal value of an ASCII string over digits and \<^verbatim>\<open>.\<close> (46), when it is a literal
  \<^verbatim>\<open>float()\<close> accepts: \<^verbatim>\<open>12\<close>, \<^verbatim>\<open>12.\<close>, \<^verbatim>\<open>12.5\<close> or \<^verbatim>\<open>.5\<close>.
\<close>

definition float_literal :: "pystr \<Rightarrow> rat option" where
  "float_literal s =
     (let ip = takeWhile is_ascii_digit s
      in case dropWhile is_ascii_digit s of
           [] \<Rightarrow> if ip = [] then None else Some (of_nat (dec_value ip))
         | c # fp \<Rightarrow>
             if c = 46 \<and> list_all is_ascii_digit fp \<and> (ip \<noteq> [] \<or> fp \<noteq> [])
             then Some (of_nat (dec_value ip) + of_nat (dec_value fp) / 10 ^ length fp)
             else None)"

text \<open>
  \<^verbatim>\<open>float(s)\<close> on the strings \<open>parse_float\<close> hands to it, which consist of decimal digits
  and \<^verbatim>\<open>.\<close> only: the other forms \<^verbatim>\<open>float()\<close> accepts (sign, exponent, underscores, blanks,
  \<^verbatim>\<open>inf\<close>, \<^verbatim>\<open>nan\<close>) need a character that has been stripped. The string is brought to
  ASCII first. A literal too large for a double gives infinity, not an exception, and
  there is no limit on the number of digits.
\<close>

definition py_float :: "py_env \<Rightarrow> pystr \<Rightarrow> py_error + pyfloat" where
  "py_float env s =
     (case float_literal (map (to_ascii env) s) of
        None \<Rightarrow> Inl ValueError
      | Some q \<Rightarrow> Inr (nearest_double q))"

text \<open>
  \<^verbatim>\<open>round(x, 2)\<close> on a float: infinity rounds to itself; a finite value is rounded
  correctly to two decimals (ties to even, on the exact value of the double) and the
  decimal result is converted back to a double. \<^verbatim>\<open>OverflowError\<close> is raised when that
  conversion overflows.
\<close>

definition py_round2 :: "pyfloat \<Rightarrow> py_error + pyfloat" where
  "py_round2 x =
     (case x of
        Infinity \<Rightarrow> Inr Infinity
      | Finite v \<Rightarrow>
          (case nearest_double (of_int (round_half_even (v * 100)) / 100) of
             Infinity \<Rightarrow> Inl OverflowError
           | Finite r \<Rightarrow> Inr (Finite r)))"

text \<open>
  \<^verbatim>\<open>
  def parse_float(value: str) -> float | None:
      cleaned = re.sub(r"[^\d.]", "", value)
      try:
          return round(float(cleaned), 2)
      except ValueError:
          return None
  \<close>
  Only \<^verbatim>\<open>ValueError\<close> is caught; any other exception leaves the function.
\<close>

definition parse_float :: "py_env \<Rightarrow> pystr \<Rightarrow> py_error + pyfloat option" where
  "parse_float env v =
     (let cleaned = filter (\<lambda>c. is_decimal env c \<or> c = 46) v
      in case bind_err (py_float env cleaned) py_round2 of
           Inl ValueError \<Rightarrow> Inr None
         | Inl e \<Rightarrow> Inl e
         | Inr y \<Rightarrow> Inr (Some y))"

section \<open>The parsed document\<close>

text \<open>
  The functions read a parsed page only through a few accessors, and the model of the
  page is what those accessors return. A cell is a \<^verbatim>\<open>td\<close> or \<^verbatim>\<open>th\<close> element: its tag, the
  text nodes below it in document order, and its \<^verbatim>\<open>rowspan\<close> and \<^verbatim>\<open>colspan\<close> attributes
  when present. A row is a \<^verbatim>\<open>tr\<close> element: the text nodes below it and the result of
  \<^verbatim>\<open>row.find_all(["td", "th"])\<close>; \<^verbatim>\<open>row.find_all("th")\<close> is the sublist of the cells
  tagged \<open>TH\<close>. A table is the result of \<^verbatim>\<open>table.find_all("tr")\<close>. A page is the list of
  the \<^verbatim>\<open>id\<close> attributes of its elements and the result of
  \<^verbatim>\<open>soup.find_all("table", class_="wikitable")\<close>.
\<close>

datatype tag = TH | TD

record cell =
  cell_tag :: tag
  cell_strings :: "pystr list"
  cell_rowspan :: "pystr option"
  cell_colspan :: "pystr option"

record row =
  row_strings :: "pystr list"
  row_cells :: "cell list"

type_synonym table = "row list"

record soup =
  soup_ids :: "pystr list"
  soup_wikitables :: "table list"

text \<open>\<^verbatim>\<open>el.get_text()\<close> joins the text nodes; with \<^verbatim>\<open>strip=True\<close> each node is stripped and
  the empty ones are dropped.\<close>

definition get_text :: "pystr list \<Rightarrow> pystr" where
  "get_text ss = concat ss"

definition get_text_strip :: "py_env \<Rightarrow> pystr list \<Rightarrow> pystr" where
  "get_text_strip env ss = concat (filter (\<lambda>s. s \<noteq> []) (map (py_strip env) ss))"

definition find_all_th :: "row \<Rightarrow> cell list" where
  "find_all_th r = filter (\<lambda>c. cell_tag c = TH) (row_cells r)"

text \<open>\<^verbatim>\<open>[th.get_text(strip=True).lower() for th in row.find_all("th")]\<close>\<close>

definition th_texts :: "py_env \<Rightarrow> row \<Rightarrow> pystr list" where
  "th_texts env r = map (\<lambda>th. py_lower env (get_text_strip env (cell_strings th))) (find_all_th r)"

section \<open>Locating the tables\<close>

definition is_results_table :: "py_env \<Rightarrow> table \<Rightarrow> bool" where
  "is_results_table env t =
     list_ex (\<lambda>r. list_ex (py_in (ascii ''party'')) (th_texts env r) \<and>
                   list_ex (py_in (ascii ''votes'')) (th_texts env r) \<and>
                   list_ex (py_in (ascii ''seats'')) (th_texts env r)) t"

definition find_results_table :: "py_env \<Rightarrow> soup \<Rightarrow> table option" where
  "find_results_table env s = List.find (is_results_table env) (soup_wikitables s)"

definition is_constituency_table :: "py_env \<Rightarrow> table \<Rightarrow> bool" where
  "is_constituency_table env t = list_ex (\<lambda>r. list_ex (py_in (ascii ''constituency'')) (th_texts env r)) t"

text \<open>
  \<^verbatim>\<open>
  def find_constituency_table(soup):
      if not soup.find(id="By_constituency"):
          return None
      for tbl in soup.find_all("table", class_="wikitable"):
          if is_constituency_table(tbl):
              return tbl
      return None
  \<close>
\<close>

definition find_constituency_table :: "py_env \<Rightarrow> soup \<Rightarrow> table option" where
  "find_constituency_table env s =
     (if (ascii ''By_constituency'') \<notin> set (soup_ids s) then None
      else List.find (is_constituency_table env) (soup_wikitables s))"

section \<open>Headers and columns\<close>

fun first_index :: "('a \<Rightarrow> bool) \<Rightarrow> 'a list \<Rightarrow> nat option" where
  "first_index p [] = None"
| "first_index p (x # xs) = (if p x then Some 0 else map_option Suc (first_index p xs))"

text \<open>The index of the first row one of whose header cells mentions \<open>kw\<close>.\<close>

definition find_header :: "py_env \<Rightarrow> pystr \<Rightarrow> table \<Rightarrow> nat option" where
  "find_header env kw rows = first_index (\<lambda>r. list_ex (py_in kw) (th_texts env r)) rows"

definition colspan_of :: "py_env \<Rightarrow> cell \<Rightarrow> py_error + int" where
  "colspan_of env th = (case cell_colspan th of None \<Rightarrow> Inr 1 | Some s \<Rightarrow> py_int env s)"

text \<open>
  \<^verbatim>\<open>
  for th in header_row.find_all("th"):
      text = clean_text(th.get_text()).lower()
      for _ in range(int(th.get("colspan", 1))):
          headers.append(text)
  \<close>
\<close>

fun expand_headers :: "py_env \<Rightarrow> cell list \<Rightarrow> py_error + pystr list" where
  "expand_headers env [] = Inr []"
| "expand_headers env (th # ths) =
     bind_err (colspan_of env th) (\<lambda>span.
     bind_err (expand_headers env ths) (\<lambda>hs.
       Inr (replicate (nat span) (py_lower env (clean_text env (get_text (cell_strings th)))) @ hs)))"

text \<open>\<open>col_idx\<close>: for each name in turn, the first header that contains it.\<close>

fun col_idx :: "pystr list \<Rightarrow> pystr list \<Rightarrow> nat option" where
  "col_idx [] headers = None"
| "col_idx (name # names) headers =
     (case first_index (py_in name) headers of
        Some i \<Rightarrow> Some i
      | None \<Rightarrow> col_idx names headers)"

definition pct_indices :: "py_env \<Rightarrow> pystr list \<Rightarrow> pystr list \<Rightarrow> nat list" where
  "pct_indices env labels headers =
     filter (\<lambda>i. py_strip env (headers ! i) \<in> set labels) [0..<length headers]"

record columns =
  const_col :: "nat option"
  elect_col :: "nat option"
  turnout_col :: "nat option"
  party_col :: "nat option"
  candidate_col :: "nat option"
  votes_col :: "nat option"
  turnout_pct_col :: "nat option"
  pct_col :: "nat option"

definition constituency_columns :: "py_env \<Rightarrow> pystr list \<Rightarrow> columns" where
  "constituency_columns env headers =
     (let pct = pct_indices env [ascii ''%'', ascii ''percentage''] headers
      in \<lparr> const_col = col_idx [ascii ''constituency''] headers,
           elect_col = col_idx [ascii ''electorate''] headers,
           turnout_col = col_idx [ascii ''turnout''] headers,
           party_col = col_idx [ascii ''party'', ascii ''political''] headers,
           candidate_col = col_idx [ascii ''candidate''] headers,
           votes_col = col_idx [ascii ''votes''] headers,
           turnout_pct_col = (if 1 \<le> length pct then Some (pct ! 0) else None),
           pct_col = (if 2 \<le> length pct then Some (pct ! 1)
                      else if pct \<noteq> [] then Some (pct ! 0) else None) \<rparr>)"

section \<open>The constituency extractor\<close>

record candidate =
  cand_name :: pystr
  cand_party :: pystr
  cand_votes :: "int option"
  cand_percentage :: "pyfloat option"

text \<open>A value of the dictionary \<open>constituencies\<close>; its key is the constituency name.\<close>

record group_data =
  g_constituency :: pystr
  g_electorate :: "int option"
  g_turnout :: "int option"
  g_turnout_pct :: "pyfloat option"
  g_candidates :: "candidate list"

text \<open>
  The loop over the data rows reads and writes two variables: the dictionary
  \<open>constituencies\<close>, an association list in insertion order (the order in which a Python
  \<^verbatim>\<open>dict\<close> is iterated), and \<open>current_constituency\<close>.
\<close>

record ext_state =
  constituencies :: "(pystr \<times> group_data) list"
  current_constituency :: "pystr option"

text \<open>What the loop body did with a row: the four \<^verbatim>\<open>continue\<close> statements, or the append.\<close>

datatype row_outcome = NoCells | FooterRow | NoConstituency | NoCandidate | Appended

definition footer_keywords :: "pystr list" where
  "footer_keywords = [ascii ''total'', ascii ''source'', ascii ''valid votes'', ascii ''invalid'', ascii ''registered'']"

definition row_text :: "py_env \<Rightarrow> row \<Rightarrow> pystr" where
  "row_text env r = py_lower env (clean_text env (get_text (row_strings r)))"

definition cell_text :: "py_env \<Rightarrow> cell \<Rightarrow> pystr" where
  "cell_text env c = clean_text env (get_text (cell_strings c))"

text \<open>The first cell of a row that has cells: \<^verbatim>\<open>cells[0]\<close>.\<close>

definition first_cell :: "row \<Rightarrow> cell" where
  "first_cell r = hd (row_cells r)"

text \<open>
  \<^verbatim>\<open>
  is_new = bool(first_cell.get("rowspan")) or (
      const_col == 0
      and first_cell_text
      and not first_cell_text.replace(",", "").replace(".", "").isdigit()
  )
  \<close>
  An attribute value is a string, and a string is true when it is not empty.
\<close>

definition is_new :: "py_env \<Rightarrow> columns \<Rightarrow> row \<Rightarrow> bool" where
  "is_new env cols r =
     ((case cell_rowspan (first_cell r) of None \<Rightarrow> False | Some s \<Rightarrow> s \<noteq> []) \<or>
      (const_col cols = Some 0 \<and> cell_text env (first_cell r) \<noteq> [] \<and>
       \<not> py_isdigit env (remove_char 46 (remove_char 44 (cell_text env (first_cell r))))))"

text \<open>
  \<^verbatim>\<open>
  if is_new and first_cell_text:
      current_constituency = first_cell_text
  \<close>
\<close>

definition next_constituency :: "py_env \<Rightarrow> columns \<Rightarrow> ext_state \<Rightarrow> row \<Rightarrow> pystr option" where
  "next_constituency env cols st r =
     (if is_new env cols r \<and> cell_text env (first_cell r) \<noteq> [] then Some (cell_text env (first_cell r))
      else current_constituency st)"

text \<open>\<^verbatim>\<open>data_cells = cells[1:] if is_new else cells\<close>\<close>

definition data_cells :: "py_env \<Rightarrow> columns \<Rightarrow> row \<Rightarrow> cell list" where
  "data_cells env cols r = (if is_new env cols r then tl (row_cells r) else row_cells r)"

text \<open>
  \<^verbatim>\<open>
  def get(idx):
      if idx is None:
          return ""
      adjusted = idx - 1
      if 0 <= adjusted < len(data_cells):
          return clean_text(data_cells[adjusted].get_text())
      return ""
  \<close>
\<close>

definition constituency_get :: "py_env \<Rightarrow> columns \<Rightarrow> row \<Rightarrow> nat option \<Rightarrow> pystr" where
  "constituency_get env cols r idx =
     (case idx of
        None \<Rightarrow> []
      | Some i \<Rightarrow>
          (let adjusted = int i - 1
           in if 0 \<le> adjusted \<and> adjusted < int (length (data_cells env cols r))
              then cell_text env (data_cells env cols r ! nat adjusted) else []))"

text \<open>
  \<^verbatim>\<open>
  party = get(party_col)
  if not party and party_col is not None:
      party = get(party_col + 1)
  \<close>
\<close>

definition row_party :: "py_env \<Rightarrow> columns \<Rightarrow> row \<Rightarrow> pystr" where
  "row_party env cols r =
     (if constituency_get env cols r (party_col cols) = [] \<and> party_col cols \<noteq> None
      then constituency_get env cols r (map_option Suc (party_col cols))
      else constituency_get env cols r (party_col cols))"

text \<open>The dictionary stored for a constituency seen for the first time; the metadata is
  read on a starting row only.\<close>

definition new_group :: "py_env \<Rightarrow> columns \<Rightarrow> row \<Rightarrow> pystr \<Rightarrow> py_error + group_data" where
  "new_group env cols r name =
     (let electorate = (if is_new env cols r then constituency_get env cols r (elect_col cols) else []);
          turnout = (if is_new env cols r then constituency_get env cols r (turnout_col cols) else []);
          t_pct = (if is_new env cols r then constituency_get env cols r (turnout_pct_col cols) else [])
      in bind_err (parse_int env electorate) (\<lambda>e.
         bind_err (parse_int env turnout) (\<lambda>t.
         bind_err (parse_float env t_pct) (\<lambda>tp.
           Inr \<lparr> g_constituency = name, g_electorate = e, g_turnout = t,
                 g_turnout_pct = tp, g_candidates = [] \<rparr>))))"

text \<open>The dictionary appended to the candidates of the current constituency.\<close>

definition row_candidate :: "py_env \<Rightarrow> columns \<Rightarrow> row \<Rightarrow> py_error + candidate" where
  "row_candidate env cols r =
     bind_err (parse_int env (constituency_get env cols r (votes_col cols))) (\<lambda>v.
     bind_err (parse_float env (constituency_get env cols r (pct_col cols))) (\<lambda>p.
       Inr \<lparr> cand_name = constituency_get env cols r (candidate_col cols),
             cand_party = row_party env cols r,
             cand_votes = v, cand_percentage = p \<rparr>))"

text \<open>\<^verbatim>\<open>constituencies[name]["candidates"].append(c)\<close>\<close>

definition append_candidate :: "pystr \<Rightarrow> candidate \<Rightarrow> (pystr \<times> group_data) list \<Rightarrow> (pystr \<times> group_data) list" where
  "append_candidate name c groups =
     map (\<lambda>(k, g). if k = name then (k, g\<lparr>g_candidates := g_candidates g @ [c]\<rparr>) else (k, g)) groups"

text \<open>
  The body of the loop over the data rows (lines 126 to 187 of \<^verbatim>\<open>main.py\<close>): the outcome
  for the row and the state after it.
\<close>

definition process_row :: "py_env \<Rightarrow> columns \<Rightarrow> ext_state \<Rightarrow> row \<Rightarrow> py_error + (row_outcome \<times> ext_state)" where
  "process_row env cols st r =
     (if row_cells r = [] then Inr (NoCells, st)
      else if list_ex (\<lambda>kw. py_in kw (row_text env r)) footer_keywords then Inr (FooterRow, st)
      else
        let st1 = st\<lparr>current_constituency := next_constituency env cols st r\<rparr>
        in case next_constituency env cols st r of
             None \<Rightarrow> Inr (NoConstituency, st1)
           | Some name \<Rightarrow>
               if name = [] then Inr (NoConstituency, st1)
               else if constituency_get env cols r (candidate_col cols) = [] \<and>
                       constituency_get env cols r (votes_col cols) = []
               then Inr (NoCandidate, st1)
               else
                 bind_err
                   (if name \<in> set (map fst (constituencies st)) then Inr (constituencies st)
                    else bind_err (new_group env cols r name) (\<lambda>g.
                           Inr (constituencies st @ [(name, g)])))
                   (\<lambda>groups.
                      bind_err (row_candidate env cols r) (\<lambda>c.
                        Inr (Appended, st1\<lparr>constituencies := append_candidate name c groups\<rparr>))))"

fun run_rows :: "py_env \<Rightarrow> columns \<Rightarrow> ext_state \<Rightarrow> row list \<Rightarrow> py_error + ext_state" where
  "run_rows env cols st [] = Inr st"
| "run_rows env cols st (r # rs) =
     (case process_row env cols st r of
        Inl e \<Rightarrow> Inl e
      | Inr (out, st') \<Rightarrow> run_rows env cols st' rs)"

text \<open>\<^verbatim>\<open>max(iterable, key=..., default=None)\<close>: the first element with the largest key.\<close>

fun max_first :: "('a \<Rightarrow> int) \<Rightarrow> 'a \<Rightarrow> 'a list \<Rightarrow> 'a" where
  "max_first key best [] = best"
| "max_first key best (x # xs) = max_first key (if key best < key x then x else best) xs"

definition py_max :: "('a \<Rightarrow> int) \<Rightarrow> 'a list \<Rightarrow> 'a option" where
  "py_max key xs = (case xs of [] \<Rightarrow> None | x # rest \<Rightarrow> Some (max_first key x rest))"

text \<open>The candidates with a known vote count, each with that count.\<close>

definition known_votes :: "candidate list \<Rightarrow> (candidate \<times> int) list" where
  "known_votes cs = List.map_filter (\<lambda>c. map_option (\<lambda>v. (c, v)) (cand_votes c)) cs"

record winner =
  w_candidate :: "pystr option"
  w_party :: "pystr option"
  w_votes :: "int option"

record constituency =
  c_constituency :: pystr
  c_electorate :: "int option"
  c_turnout :: "int option"
  c_turnout_pct :: "pyfloat option"
  c_total_votes :: int
  c_winner :: winner
  c_candidates :: "candidate list"

text \<open>
  \<^verbatim>\<open>
  for name, data in constituencies.items():
      candidates = data["candidates"]
      total_votes = sum(c["votes"] for c in candidates if c["votes"] is not None)
      winner = max((c for c in candidates if c["votes"] is not None),
                   key=lambda c: c["votes"], default=None)
      result.append({... "winner": {"candidate": winner["candidate"] if winner else None, ...}})
  \<close>
\<close>

definition make_winner :: "(candidate \<times> int) option \<Rightarrow> winner" where
  "make_winner w =
     (case w of
        None \<Rightarrow> \<lparr> w_candidate = None, w_party = None, w_votes = None \<rparr>
      | Some (c, v) \<Rightarrow> \<lparr> w_candidate = Some (cand_name c), w_party = Some (cand_party c),
                        w_votes = Some v \<rparr>)"

definition finalize :: "pystr \<times> group_data \<Rightarrow> constituency" where
  "finalize item =
     (let name = fst item; data = snd item; candidates = g_candidates data
      in \<lparr> c_constituency = name,
           c_electorate = g_electorate data,
           c_turnout = g_turnout data,
           c_turnout_pct = g_turnout_pct data,
           c_total_votes = sum_list (map snd (known_votes candidates)),
           c_winner = make_winner (py_max snd (known_votes candidates)),
           c_candidates = candidates \<rparr>)"

definition parse_by_constituency_table :: "py_env \<Rightarrow> table \<Rightarrow> py_error + constituency list" where
  "parse_by_constituency_table env rows =
     (if rows = [] then Inr []
      else case find_header env (ascii ''constituency'') rows of
             None \<Rightarrow> Inr []
           | Some i \<Rightarrow>
               bind_err (expand_headers env (find_all_th (rows ! i))) (\<lambda>headers.
               bind_err (run_rows env (constituency_columns env headers)
                           \<lparr> constituencies = [], current_constituency = None \<rparr>
                           (drop (i + 1) rows)) (\<lambda>st.
                 Inr (map finalize (constituencies st)))))"

section \<open>The summary extractor\<close>

record party_result =
  pr_party :: pystr
  pr_votes :: "int option"
  pr_percentage :: "pyfloat option"
  pr_seats :: "int option"
  pr_change :: pystr

record results_columns =
  r_party_col :: "nat option"
  r_votes_col :: "nat option"
  r_seats_col :: "nat option"
  r_pct_col :: "nat option"
  r_change_col :: "nat option"

definition results_columns_of :: "py_env \<Rightarrow> pystr list \<Rightarrow> results_columns" where
  "results_columns_of env headers =
     (let pct = pct_indices env [ascii ''%''] headers
      in \<lparr> r_party_col = col_idx [ascii ''party''] headers,
           r_votes_col = col_idx [ascii ''votes''] headers,
           r_seats_col = col_idx [ascii ''seats''] headers,
           r_pct_col = (if pct \<noteq> [] then Some (pct ! 0) else None),
           r_change_col = col_idx [ascii ''+'', ascii ''change'', ascii ''swing''] headers \<rparr>)"

definition results_footer_keywords :: "pystr list" where
  "results_footer_keywords =
     [ascii ''total'', ascii ''source'', ascii ''valid'', ascii ''invalid'', ascii ''registered'', ascii ''blank'']"

text \<open>
  \<^verbatim>\<open>
  def get(idx):
      if idx is not None and idx < len(cells):
          return clean_text(cells[idx].get_text())
      return ""
  \<close>
\<close>

definition results_get :: "py_env \<Rightarrow> cell list \<Rightarrow> nat option \<Rightarrow> pystr" where
  "results_get env cells idx =
     (case idx of
        None \<Rightarrow> []
      | Some i \<Rightarrow> if i < length cells then cell_text env (cells ! i) else [])"

text \<open>One data row of the summary table: skipped (\<open>None\<close>) or one record.\<close>

definition process_results_row :: "py_env \<Rightarrow> results_columns \<Rightarrow> row \<Rightarrow> py_error + party_result option" where
  "process_results_row env cols r =
     (let cells = row_cells r
      in if cells = [] then Inr None
         else if list_ex (\<lambda>kw. py_in kw (row_text env r)) results_footer_keywords then Inr None
         else
           let party0 = results_get env cells (r_party_col cols);
               party = (if party0 = [] \<and> r_party_col cols \<noteq> None
                        then results_get env cells (map_option Suc (r_party_col cols))
                        else party0);
               votes = results_get env cells (r_votes_col cols);
               pct = results_get env cells (r_pct_col cols);
               seats = results_get env cells (r_seats_col cols);
               change = results_get env cells (r_change_col cols)
           in if party = [] \<and> votes = [] then Inr None
              else
                bind_err (parse_int env votes) (\<lambda>v.
                bind_err (parse_float env pct) (\<lambda>p.
                bind_err (parse_int env seats) (\<lambda>s.
                  Inr (Some \<lparr> pr_party = party, pr_votes = v, pr_percentage = p,
                              pr_seats = s, pr_change = change \<rparr>)))))"

fun results_rows :: "py_env \<Rightarrow> results_columns \<Rightarrow> party_result list \<Rightarrow> row list \<Rightarrow> py_error + party_result list" where
  "results_rows env cols results [] = Inr results"
| "results_rows env cols results (r # rs) =
     (case process_results_row env cols r of
        Inl e \<Rightarrow> Inl e
      | Inr None \<Rightarrow> results_rows env cols results rs
      | Inr (Some rec) \<Rightarrow> results_rows env cols (results @ [rec]) rs)"

definition parse_results_table :: "py_env \<Rightarrow> table \<Rightarrow> py_error + party_result list" where
  "parse_results_table env rows =
     (if rows = [] then Inr []
      else case find_header env (ascii ''votes'') rows of
             None \<Rightarrow> Inr []
           | Some i \<Rightarrow>
               bind_err (expand_headers env (find_all_th (rows ! i))) (\<lambda>headers.
                 results_rows env (results_columns_of env headers) [] (drop (i + 1) rows)))"

section \<open>The caller\<close>

text \<open>
  The last step of the script, on the parsed page:
  \<^verbatim>\<open>
  const_table = find_constituency_table(soup)
  if const_table:
      constituencies = parse_by_constituency_table(const_table)
      if constituencies:
          ... write election_constituency.json ...
  else:
      print("No #By_constituency section found ... skipping constituency file.")
  \<close>
  Neither branch exits; the summary file has been written before.
\<close>

datatype stage_outcome =
    ConstituencyFile "constituency list"
  | NoConstituencyFile
  | SkippedNoSection

definition constituency_stage :: "py_env \<Rightarrow> soup \<Rightarrow> py_error + stage_outcome" where
  "constituency_stage env s =
     (case find_constituency_table env s of
        None \<Rightarrow> Inr SkippedNoSection
      | Some t \<Rightarrow>
          bind_err (parse_by_constituency_table env t) (\<lambda>cs.
            Inr (if cs \<noteq> [] then ConstituencyFile cs else NoConstituencyFile)))"

text \<open>Both extractions of one page, as the script runs them.\<close>

definition extract_page :: "py_env \<Rightarrow> soup \<Rightarrow> (py_error + party_result list) option \<times> (py_error + stage_outcome)" where
  "extract_page env s = (map_option (parse_results_table env) (find_results_table env s), constituency_stage env s)"

section \<open>Sample data\<close>

text \<open>
  A fragment of the tables of CPython 3.11 with its default digit limit: all of its white
  space (among it U+00A0, the no-break space), the decimal digits of three scripts (ASCII,
  Arabic-Indic from U+0660, full-width from U+FF10), the superscript digits U+00B2, U+00B3
  and U+00B9 for \<^verbatim>\<open>isdigit\<close>, and the lower-casing of the ASCII letters. On a string made
  of ASCII and these characters it is what the interpreter does.
\<close>

definition sample_env :: py_env where
  "sample_env =
     \<lparr> env_isspace = (\<lambda>c. (9 \<le> c \<and> c \<le> 13) \<or> (28 \<le> c \<and> c \<le> 32) \<or> c = 133 \<or> c = 160
                           \<or> c = 5760 \<or> (8192 \<le> c \<and> c \<le> 8202) \<or> c = 8232 \<or> c = 8233
                           \<or> c = 8239 \<or> c = 8287 \<or> c = 12288),
       env_decimal = (\<lambda>c. if 48 \<le> c \<and> c \<le> 57 then Some (c - 48)
                          else if 1632 \<le> c \<and> c \<le> 1641 then Some (c - 1632)
                          else if 65296 \<le> c \<and> c \<le> 65305 then Some (c - 65296)
                          else None),
       env_isdigit = (\<lambda>c. (48 \<le> c \<and> c \<le> 57) \<or> (1632 \<le> c \<and> c \<le> 1641)
                           \<or> (65296 \<le> c \<and> c \<le> 65305) \<or> c = 178 \<or> c = 179 \<or> c = 185),
       env_lower = map (\<lambda>c. if 65 \<le> c \<and> c \<le> 90 then c + 32 else c),
       env_max_str_digits = 4300 \<rparr>"

text \<open>Cells with a single text node, rows made of such cells, and a small column layout:
  constituency, party, candidate, votes.\<close>

definition td :: "pystr \<Rightarrow> cell" where
  "td s = \<lparr> cell_tag = TD, cell_strings = [s], cell_rowspan = None, cell_colspan = None \<rparr>"

definition th :: "pystr \<Rightarrow> cell" where
  "th s = \<lparr> cell_tag = TH, cell_strings = [s], cell_rowspan = None, cell_colspan = None \<rparr>"

definition td_rowspan :: "pystr \<Rightarrow> pystr \<Rightarrow> cell" where
  "td_rowspan rs s =
     \<lparr> cell_tag = TD, cell_strings = [s], cell_rowspan = Some rs, cell_colspan = None \<rparr>"

definition row_of :: "cell list \<Rightarrow> row" where
  "row_of cs = \<lparr> row_strings = concat (map (\<lambda>c. cell_strings c @ [ascii '' '']) cs), row_cells = cs \<rparr>"

definition sample_columns :: columns where
  "sample_columns =
     \<lparr> const_col = Some 0, elect_col = None, turnout_col = None, party_col = Some 1,
       candidate_col = Some 2, votes_col = Some 3, turnout_pct_col = None, pct_col = None \<rparr>"

definition initial_state :: ext_state where
  "initial_state = \<lparr> constituencies = [], current_constituency = None \<rparr>"

definition sample_table :: table where
  "sample_table =
     [row_of [th (ascii ''Constituency''), th (ascii ''Party''), th (ascii ''Candidate''), th (ascii ''Votes'')],
      row_of [td_rowspan (ascii ''2'') (ascii ''Carriacou''), td (ascii ''NNP''), td (ascii ''Alice''), td (ascii ''1,000'')],
      row_of [td (ascii ''St. George''), td (ascii ''NDC''), td (ascii ''Carl''), td (ascii ''n/a'')],
      row_of [td (ascii ''Carriacou''), td (ascii ''IND''), td (ascii ''Dora''), td (ascii ''2,500'')],
      row_of [td (ascii ''Total''), td [], td [], td (ascii ''3,500'')]]"

definition sample_row_total :: row where
  "sample_row_total = row_of [td (ascii ''Total''), td (ascii ''3,500'')]"

definition sample_row_blank :: row where
  "sample_row_blank = row_of [td (ascii ''Blank ballots''), td [], td [], td (ascii ''12'')]"

definition sample_row_rowspan1 :: row where
  "sample_row_rowspan1 = row_of [td_rowspan (ascii ''1'') (ascii ''2018''), td (ascii ''NNP''), td (ascii ''Alice''), td (ascii ''7'')]"

definition sample_row_start :: row where
  "sample_row_start = row_of [td_rowspan (ascii ''2'') (ascii ''Carriacou''), td (ascii ''NNP''), td (ascii ''Alice''), td (ascii ''9'')]"

definition sample_row_next :: row where
  "sample_row_next = row_of [td [], td (ascii ''NDC''), td (ascii ''Bob''), td (ascii ''8'')]"

definition sample_soup :: soup where
  "sample_soup = \<lparr> soup_ids = [ascii ''Results''], soup_wikitables = [sample_table] \<rparr>"

text \<open>A footer row whose two words are separated by a no-break space, and a row whose
  first cell holds nothing but a no-break space.\<close>

definition sample_row_nbsp_footer :: row where
  "sample_row_nbsp_footer = row_of [td (ascii ''Valid'' @ [160] @ ascii ''votes''), td (ascii ''9'')]"

definition sample_row_nbsp_first :: row where
  "sample_row_nbsp_first = row_of [td [160], td (ascii ''NDC''), td (ascii ''Bob''), td (ascii ''8'')]"

section \<open>Properties of the integer parse\<close>

lemma bind_err_Inr [simp]: "bind_err (Inr x) f = f x"
  by (simp add: bind_err_def)

lemma bind_err_Inl [simp]: "bind_err (Inl e) f = Inl e"
  by (simp add: bind_err_def)

lemma wf_sample_env: "wf_env sample_env"
  unfolding wf_env_def sample_env_def
  by (auto split: if_splits)

lemma wf_decimal_ascii:
  assumes "wf_env env" "c < 128"
  shows "env_decimal env c = (if 48 \<le> c \<and> c \<le> 57 then Some (c - 48) else None)"
  using assms unfolding wf_env_def by blast

lemma wf_is_decimal_ascii:
  assumes "wf_env env" "c < 128"
  shows "is_decimal env c \<longleftrightarrow> is_ascii_digit c"
  using wf_decimal_ascii [OF assms] by (simp add: is_decimal_def is_ascii_digit_def)

lemma wf_decimal_value:
  assumes "wf_env env" "env_decimal env c = Some d"
  shows "d < 10" "\<not> env_isspace env c"
  using assms unfolding wf_env_def by blast+

lemma to_ascii_decimal:
  assumes "wf_env env" "is_decimal env c"
  shows "is_ascii_digit (to_ascii env c)"
proof (cases "c < 127")
  case True
  then have "c < 128" by simp
  from wf_is_decimal_ascii [OF assms(1) this] assms(2) True show ?thesis
    by (simp add: to_ascii_def)
next
  case False
  from assms(2) obtain d where d: "env_decimal env c = Some d"
    by (auto simp: is_decimal_def)
  from wf_decimal_value [OF assms(1) d] False d show ?thesis
    by (simp add: to_ascii_def is_ascii_digit_def)
qed

lemma digit_not_underscore: "is_ascii_digit c \<Longrightarrow> c \<noteq> 95"
  by (auto simp: is_ascii_digit_def)

lemma int_body_ok_digits: "s \<noteq> [] \<Longrightarrow> list_all is_ascii_digit s \<Longrightarrow> int_body_ok s"
  by (induction s rule: int_body_ok.induct) (auto simp: digit_not_underscore)

lemma strip_with_id:
  assumes "s \<noteq> []" "\<not> p (hd s)" "\<not> p (last s)"
  shows "strip_with p s = s"
proof -
  have "dropWhile p s = s"
    using assms(1,2) by (cases s) simp_all
  moreover have "dropWhile p (rev s) = rev s"
    using assms(1,3) by (cases "rev s") (simp_all add: hd_rev [symmetric])
  ultimately show ?thesis by (simp add: strip_with_def)
qed

text \<open>\<^verbatim>\<open>int()\<close> on a non-empty string of ASCII digits.\<close>

lemma py_int_ascii_digits:
  assumes "t \<noteq> []" "list_all is_ascii_digit t" "map (to_ascii env) s = t"
  shows "py_int env s =
           (if env_max_str_digits env \<noteq> 0 \<and> env_max_str_digits env < length t
            then Inl ValueError else Inr (int (dec_value t)))"
proof -
  have h: "is_ascii_digit (hd t)" and l: "is_ascii_digit (last t)"
    using assms(1,2) by (simp_all add: list_all_iff)
  have st: "strip_with is_c_space t = t"
    using assms(1) h l
    by (intro strip_with_id) (auto simp: is_ascii_digit_def is_c_space_def)
  have f: "filter is_ascii_digit t = t"
    using assms(2) by (simp add: list_all_iff)
  have sign: "hd t \<noteq> 45" "hd t \<noteq> 43"
    using h by (auto simp: is_ascii_digit_def)
  show ?thesis
    using assms(1,2) sign
    by (simp add: py_int_def assms(3) st Let_def int_body_ok_digits f)
qed

lemma parse_int_eq:
  assumes "wf_env env"
  shows "parse_int env v =
     (if filter (is_decimal env) v = [] then Inr None
      else if exceeds_digit_limit env v then Inl ValueError
      else Inr (Some (int (dec_value (map (to_ascii env) (filter (is_decimal env) v))))))"
proof (cases "filter (is_decimal env) v = []")
  case True
  then show ?thesis by (simp add: parse_int_def)
next
  case False
  let ?c = "filter (is_decimal env) v"
  let ?t = "map (to_ascii env) ?c"
  have ne: "?t \<noteq> []" using False by simp
  have "\<forall>c \<in> set ?c. is_decimal env c" by simp
  then have dg: "list_all is_ascii_digit ?t"
    using to_ascii_decimal [OF assms] by (simp add: list_all_iff)
  from py_int_ascii_digits [OF ne dg refl] False show ?thesis
    by (simp add: parse_int_def exceeds_digit_limit_def)
qed

lemma parse_int_result:
  assumes "wf_env env"
  shows "parse_int env v = Inl ValueError \<and> exceeds_digit_limit env v
       \<or> (\<exists>n. parse_int env v = Inr n \<and> \<not> exceeds_digit_limit env v)"
proof (cases "filter (is_decimal env) v = []")
  case True
  then have "\<not> exceeds_digit_limit env v" by (simp add: exceeds_digit_limit_def)
  then show ?thesis using True by (simp add: parse_int_eq [OF assms])
next
  case False
  then show ?thesis by (simp add: parse_int_eq [OF assms])
qed

lemma ascii_short_within_limit:
  assumes "wf_env env" "length s \<le> 640"
  shows "\<not> exceeds_digit_limit env s"
proof -
  have "length (filter (is_decimal env) s) \<le> 640"
    using assms(2) length_filter_le [of "is_decimal env" s] by linarith
  moreover have "env_max_str_digits env = 0 \<or> 640 \<le> env_max_str_digits env"
    using assms(1) by (simp add: wf_env_def)
  ultimately show ?thesis by (auto simp: exceeds_digit_limit_def)
qed

text \<open>
  C5. The claim: for every input string the integer parse strips the characters that are
  not digits and parses the rest, \<^verbatim>\<open>"1,234"\<close> gives 1234, and a string without a digit
  gives \<open>None\<close>, never 0 and never an exception. The examples behave so, also with digits
  of another script, and an em dash (U+2014) or the empty string gives \<open>None\<close>. But a
  string with more digits than the interpreter's limit, here 4301 digits under the default
  limit of 4300, makes \<^verbatim>\<open>int()\<close> raise \<^verbatim>\<open>ValueError\<close>, and \<open>parse_int\<close> lets it pass.
\<close>

theorem parse_int_digit_limit:
  "parse_int sample_env (replicate 4301 49) = Inl ValueError
   \<and> parse_int sample_env (ascii ''1,234'') = Inr (Some 1234)
   \<and> parse_int sample_env [1633, 1634, 1635] = Inr (Some 123)
   \<and> parse_int sample_env [8212] = Inr None
   \<and> parse_int sample_env [] = Inr None"
proof -
  have long: "parse_int sample_env (replicate n 49) = Inl ValueError" if "4300 < n" for n
  proof -
    have d: "is_decimal sample_env 49" by (simp add: is_decimal_def sample_env_def)
    have m: "env_max_str_digits sample_env = 4300" by (simp add: sample_env_def)
    have f: "filter (is_decimal sample_env) (replicate n 49) = replicate n 49"
      using d by simp
    have n: "replicate n (49::nat) \<noteq> []" using that by auto
    show ?thesis
      unfolding parse_int_eq [OF wf_sample_env] exceeds_digit_limit_def f m
      using that n by simp
  qed
  have a: "parse_int sample_env (replicate 4301 49) = Inl ValueError"
    by (rule long) simp
  have b: "parse_int sample_env (ascii ''1,234'') = Inr (Some 1234)" by code_simp
  have c: "parse_int sample_env [1633, 1634, 1635] = Inr (Some 123)" by code_simp
  have d: "parse_int sample_env [8212] = Inr None" by code_simp
  have e: "parse_int sample_env [] = Inr None" by (simp add: parse_int_def)
  show ?thesis by (intro conjI a b c d e)
qed

text \<open>
  C10. The integer parse never returns a negative number: a minus sign and a decimal
  point are removed with every other non-digit, so \<^verbatim>\<open>"-1"\<close> gives 1 and \<^verbatim>\<open>"4.5"\<close> gives 45.
\<close>

theorem parse_int_never_negative:
  assumes "wf_env env"
  shows "(\<forall>n. parse_int env v = Inr (Some n) \<longrightarrow> 0 \<le> n)
   \<and> parse_int env (ascii ''-1'') = Inr (Some 1)
   \<and> parse_int env (ascii ''4.5'') = Inr (Some 45)"
proof -
  note d = wf_is_decimal_ascii [OF assms]
  have a: "ascii ''-1'' = [45, 49]" "ascii ''4.5'' = [52, 46, 53]"
    by (simp_all add: ascii_def)
  have f1: "filter (is_decimal env) [45, 49] = [49]"
    by (simp add: d is_ascii_digit_def)
  have f2: "filter (is_decimal env) [52, 46, 53] = [52, 53]"
    by (simp add: d is_ascii_digit_def)
  have l1: "\<not> exceeds_digit_limit env [45, 49]"
    by (rule ascii_short_within_limit [OF assms]) simp
  have l2: "\<not> exceeds_digit_limit env [52, 46, 53]"
    by (rule ascii_short_within_limit [OF assms]) simp
  have "parse_int env (ascii ''-1'') = Inr (Some 1)"
    unfolding a parse_int_eq [OF assms] f1 using l1
    by (simp add: to_ascii_def dec_value_def)
  moreover have "parse_int env (ascii ''4.5'') = Inr (Some 45)"
    unfolding a parse_int_eq [OF assms] f2 using l2
    by (simp add: to_ascii_def dec_value_def)
  moreover have "\<forall>n. parse_int env v = Inr (Some n) \<longrightarrow> 0 \<le> n"
    by (auto simp: parse_int_eq [OF assms] split: if_splits)
  ultimately show ?thesis by simp
qed

theorem parse_int_never_negative_witness:
  "wf_env sample_env \<and> parse_int sample_env (ascii ''-1'') = Inr (Some 1) \<and> (0::int) \<le> 1"
  using parse_int_never_negative [OF wf_sample_env, of "ascii ''-1''"] wf_sample_env by simp

section \<open>Properties of the float parse\<close>

lemma rhe_le: "of_int (round_half_even q) \<le> q + 1 / 2"
  unfolding round_half_even_def Let_def by (auto; linarith)

lemma rhe_ge: "q - 1 / 2 \<le> of_int (round_half_even q)"
  unfolding round_half_even_def Let_def by (auto; linarith)

lemma bitlen_rat_bounds:
  assumes "0 < a"
  shows "(2::rat) powi (bitlen a - 1) \<le> of_int a" "of_int a < (2::rat) powi (bitlen a)"
proof -
  have b: "2 ^ nat (bitlen a - 1) \<le> a" "a < 2 ^ nat (bitlen a)"
    using bitlen_bounds [OF assms] by auto
  have ge1: "1 \<le> bitlen a"
    using assms by (simp add: bitlen_alt_def)
  have "(2::rat) powi (bitlen a - 1) = of_int (2 ^ nat (bitlen a - 1))"
    using ge1 by (simp add: power_int_def)
  also have "\<dots> \<le> of_int a"
    using b(1) by (simp only: of_int_le_iff)
  finally show "(2::rat) powi (bitlen a - 1) \<le> of_int a" .
  have "(of_int a :: rat) < of_int (2 ^ nat (bitlen a))"
    using b(2) by (simp only: of_int_less_iff)
  also have "\<dots> = 2 powi (bitlen a)"
    using ge1 by (simp add: power_int_def)
  finally show "of_int a < (2::rat) powi (bitlen a)" .
qed

lemma powi_combine: "(2::rat) powi x * 2 powi y * 2 powi z = 2 powi (x + y + z)"
  by (simp add: power_int_add)

lemma scaled_aux:
  fixes a b :: int
  assumes apos: "0 < a" and bpos: "0 < b"
  shows "(2::rat) powi (k - 2) * 2 powi (bitlen a - bitlen b - k + 1) * of_int b < of_int a"
    and "of_int a < (2::rat) powi k * 2 powi (bitlen a - bitlen b - k + 1) * of_int b"
proof -
  note A = bitlen_rat_bounds [OF apos] and B = bitlen_rat_bounds [OF bpos]
  let ?e = "bitlen a - bitlen b - k + 1"
  have s1: "(2::rat) powi k * 2 powi ?e * 2 powi (bitlen b - 1) = 2 powi (bitlen a)"
    by (simp only: powi_combine) simp
  have s2: "(2::rat) powi (k - 2) * 2 powi ?e * 2 powi (bitlen b) = 2 powi (bitlen a - 1)"
    by (simp only: powi_combine) simp
  have "of_int a < (2::rat) powi k * 2 powi ?e * 2 powi (bitlen b - 1)"
    using A(2) by (simp only: s1)
  also have "\<dots> \<le> 2 powi k * 2 powi ?e * of_int b"
    using B(1) by (intro mult_left_mono) simp_all
  finally show "of_int a < (2::rat) powi k * 2 powi ?e * of_int b" .
  have "(2::rat) powi (k - 2) * 2 powi ?e * of_int b < 2 powi (k - 2) * 2 powi ?e * 2 powi (bitlen b)"
    using B(2) by (intro mult_strict_left_mono) simp_all
  also have "\<dots> \<le> of_int a"
    using A(1) by (simp only: s2)
  finally show "(2::rat) powi (k - 2) * 2 powi ?e * of_int b < of_int a" .
qed

lemma scaled_bounds:
  assumes "0 < q"
  defines "e0 \<equiv> bitlen (fst (quotient_of q)) - bitlen (snd (quotient_of q)) - 53"
  shows "2 ^ 52 < q / (2 powi e0)" "q / (2 powi e0) < 2 ^ 54"
proof -
  obtain a b where ab: "quotient_of q = (a, b)" by (cases "quotient_of q")
  have bpos: "0 < b" using ab by (rule quotient_of_denom_pos)
  have q: "q = of_int a / of_int b" using ab by (rule quotient_of_div)
  have apos: "0 < a" using assms(1) bpos q by (simp add: zero_less_divide_iff)
  have e0: "bitlen a - bitlen b - 54 + 1 = e0" by (simp add: e0_def ab)
  have bq: "(0::rat) < of_int b" using bpos by simp
  have l: "(2::rat) powi (54 - 2) * 2 powi e0 * of_int b < of_int a"
    using scaled_aux(1) [OF apos bpos, of 54] by (simp only: e0)
  have u: "of_int a < (2::rat) powi 54 * 2 powi e0 * of_int b"
    using scaled_aux(2) [OF apos bpos, of 54] by (simp only: e0)
  show "2 ^ 52 < q / (2 powi e0)"
    using l bq by (simp add: q pos_less_divide_eq mult_ac)
  show "q / (2 powi e0) < 2 ^ 54"
    using u bq by (simp add: q pos_divide_less_eq mult_ac)
qed

lemma double_exponent_cases:
  fixes q :: rat
  defines "e0 \<equiv> bitlen (fst (quotient_of q)) - bitlen (snd (quotient_of q)) - 53"
  defines "e1 \<equiv> (if q / (2 powi e0) < 2 ^ 53 then e0 else e0 + 1)"
  assumes "0 < q"
  shows "double_exponent q = max e1 (- 1074)" "2 ^ 52 \<le> q / (2 powi e1)" "q / (2 powi e1) < 2 ^ 53"
proof -
  show "double_exponent q = max e1 (- 1074)"
    by (simp add: double_exponent_def e0_def e1_def Let_def)
  define x where "x = q / (2 powi e0)"
  have sb: "2 ^ 52 < x" "x < 2 ^ 54"
    unfolding x_def e0_def by (rule scaled_bounds [OF assms(3)])+
  show "2 ^ 52 \<le> q / (2 powi e1)"
  proof (cases "x < 2 ^ 53")
    case True
    then have "e1 = e0" by (simp add: e1_def x_def)
    then show ?thesis using sb(1) by (simp add: x_def)
  next
    case False
    then have "e1 = e0 + 1" by (simp add: e1_def x_def)
    then have "(2::rat) powi e1 = 2 powi e0 * 2" by (simp add: power_int_add)
    then have h: "q / (2 powi e1) = x / 2" by (simp add: x_def)
    show ?thesis unfolding h using False by simp
  qed
  show "q / (2 powi e1) < 2 ^ 53"
  proof (cases "x < 2 ^ 53")
    case True
    then have "e1 = e0" by (simp add: e1_def x_def)
    then show ?thesis using True by (simp add: x_def)
  next
    case False
    then have "e1 = e0 + 1" by (simp add: e1_def x_def)
    then have "(2::rat) powi e1 = 2 powi e0 * 2" by (simp add: power_int_add)
    then have h: "q / (2 powi e1) = x / 2" by (simp add: x_def)
    show ?thesis unfolding h using sb(2) by simp
  qed
qed

lemma double_exponent_upper:
  assumes "0 < q"
  shows "q / (2 powi (double_exponent q)) < 2 ^ 53"
proof -
  note c = double_exponent_cases [OF assms]
  let ?e1 = "if q / 2 powi (bitlen (fst (quotient_of q)) - bitlen (snd (quotient_of q)) - 53) < 2 ^ 53
       then bitlen (fst (quotient_of q)) - bitlen (snd (quotient_of q)) - 53
       else bitlen (fst (quotient_of q)) - bitlen (snd (quotient_of q)) - 53 + 1"
  have "(2::rat) powi ?e1 \<le> 2 powi (max ?e1 (- 1074))"
    by (rule power_int_increasing) simp_all
  then have "q / (2 powi (max ?e1 (- 1074))) \<le> q / (2 powi ?e1)"
    using assms by (intro divide_left_mono) simp_all
  then show ?thesis using c(3) by (simp only: c(1))
qed

lemma double_exponent_lower:
  assumes "0 < q" "- 1074 < double_exponent q"
  shows "2 ^ 52 \<le> q / (2 powi (double_exponent q))"
proof -
  note c = double_exponent_cases [OF assms(1)]
  have "double_exponent q = (if q / 2 powi (bitlen (fst (quotient_of q)) - bitlen (snd (quotient_of q)) - 53) < 2 ^ 53
       then bitlen (fst (quotient_of q)) - bitlen (snd (quotient_of q)) - 53
       else bitlen (fst (quotient_of q)) - bitlen (snd (quotient_of q)) - 53 + 1)"
    using assms(2) unfolding c(1) by linarith
  then show ?thesis using c(2) by simp
qed

lemma round_half_even_less:
  assumes "t < of_int n + 1 / 2"
  shows "round_half_even t \<le> n"
proof -
  have "(of_int (round_half_even t) :: rat) < of_int n + 1"
    using rhe_le [of t] assms by linarith
  then have "(of_int (round_half_even t) :: rat) < of_int (n + 1)" by simp
  then have "round_half_even t < n + 1" by (simp only: of_int_less_iff)
  then show ?thesis by simp
qed

lemma nearest_double_le_max:
  assumes "nearest_double q = Finite v"
  shows "v \<le> max_double"
proof (cases "q \<le> 0")
  case True
  then have "v = 0" using assms by (simp add: nearest_double_def)
  then show ?thesis by (simp add: max_double_def)
next
  case False
  then have qpos: "0 < q" by simp
  define e where "e = double_exponent q"
  define t where "t = q / (2 powi e)"
  define m where "m = round_half_even t"
  have below: "q < overflow_threshold"
    using assms False by (auto simp: nearest_double_def split: if_splits)
  have v: "v = of_int m * (2 powi e)"
    using assms False below by (simp add: nearest_double_def m_def t_def e_def)
  have tu: "t < 2 ^ 53"
    unfolding t_def e_def by (rule double_exponent_upper [OF qpos])
  have e_le: "e \<le> 971"
  proof (rule ccontr)
    assume "\<not> e \<le> 971"
    then have big: "972 \<le> e" by simp
    then have "- 1074 < double_exponent q" by (simp add: e_def)
    then have "2 ^ 52 \<le> t"
      unfolding t_def e_def by (rule double_exponent_lower [OF qpos])
    then have "2 ^ 52 * (2 powi e) \<le> q"
      by (simp add: t_def pos_le_divide_eq)
    moreover have "(2::rat) powi 972 \<le> 2 powi e"
      using big by (intro power_int_increasing) simp_all
    ultimately have "2 ^ 52 * (2 powi 972) \<le> q"
      by (meson mult_left_mono order_trans zero_le_numeral zero_le_power)
    then show False using below by (simp add: overflow_threshold_def)
  qed
  show ?thesis
  proof (cases "e = 971")
    case True
    have "t * 2 ^ 971 < overflow_threshold"
      using below by (simp add: t_def True)
    then have "t < 2 ^ 53 - 1 / 2"
      by (simp add: overflow_threshold_def)
    then have "t < of_int (2 ^ 53 - 1) + 1 / 2" by simp
    then have "m \<le> 2 ^ 53 - 1"
      unfolding m_def by (rule round_half_even_less)
    then have "(of_int m :: rat) \<le> of_int (2 ^ 53 - 1)"
      by (simp only: of_int_le_iff)
    then have "(of_int m :: rat) * 2 ^ 971 \<le> of_int (2 ^ 53 - 1) * 2 ^ 971"
      by (intro mult_right_mono) simp_all
    then show ?thesis
      by (simp add: v True max_double_def)
  next
    case False
    then have e970: "e \<le> 970" using e_le by simp
    have "t < of_int (2 ^ 53) + 1 / 2" using tu by simp
    then have "m \<le> 2 ^ 53"
      unfolding m_def by (rule round_half_even_less)
    then have mle: "(of_int m :: rat) \<le> of_int (2 ^ 53)"
      by (simp only: of_int_le_iff)
    have ple: "(2::rat) powi e \<le> 2 powi 970"
      using e970 by (intro power_int_increasing) simp_all
    have "(of_int m :: rat) * 2 powi e \<le> of_int (2 ^ 53) * 2 powi e"
      using mle by (intro mult_right_mono) simp_all
    also have "\<dots> \<le> of_int (2 ^ 53) * 2 powi 970"
      using ple by (intro mult_left_mono) simp_all
    finally show ?thesis
      by (simp add: v max_double_def)
  qed
qed

lemma py_round2_no_overflow:
  assumes "nearest_double q = x"
  shows "\<exists>y. py_round2 x = Inr y"
proof (cases x)
  case Infinity
  then show ?thesis by (simp add: py_round2_def)
next
  case (Finite v)
  then have "v \<le> max_double" using assms nearest_double_le_max by simp
  moreover have "of_int (round_half_even (v * 100)) \<le> v * 100 + 1 / 2"
    by (rule rhe_le)
  ultimately have "of_int (round_half_even (v * 100)) / 100 < overflow_threshold"
    by (simp add: max_double_def overflow_threshold_def)
  then have "nearest_double (of_int (round_half_even (v * 100)) / 100) \<noteq> Infinity"
    by (simp add: nearest_double_def)
  then show ?thesis
    by (cases "nearest_double (of_int (round_half_even (v * 100)) / 100)")
       (simp_all add: py_round2_def Finite)
qed


lemma parse_float_eq:
  "parse_float env v =
     (case float_literal (map (to_ascii env) (filter (\<lambda>c. is_decimal env c \<or> c = 46) v)) of
        None \<Rightarrow> Inr None
      | Some q \<Rightarrow> map_sum id Some (py_round2 (nearest_double q)))"
proof (cases "float_literal (map (to_ascii env) (filter (\<lambda>c. is_decimal env c \<or> c = 46) v))")
  case None
  then show ?thesis by (simp add: parse_float_def py_float_def)
next
  case (Some q)
  obtain y where y: "py_round2 (nearest_double q) = Inr y"
    using py_round2_no_overflow [OF refl] by blast
  show ?thesis by (simp add: parse_float_def py_float_def Some y)
qed

lemma parse_float_returns: "\<exists>x. parse_float env v = Inr x"
proof (cases "float_literal (map (to_ascii env) (filter (\<lambda>c. is_decimal env c \<or> c = 46) v))")
  case None
  then show ?thesis by (simp add: parse_float_eq)
next
  case (Some q)
  obtain y where "py_round2 (nearest_double q) = Inr y"
    using py_round2_no_overflow [OF refl] by blast
  then show ?thesis by (simp add: parse_float_eq Some)
qed

lemma py_round2_two_decimals:
  assumes "py_round2 x = Inr y"
  shows "y = Infinity \<or> (\<exists>k. y = nearest_double (of_int k / 100))"
proof (cases x)
  case Infinity
  then show ?thesis using assms by (simp add: py_round2_def)
next
  case (Finite v)
  then have "y = nearest_double (of_int (round_half_even (v * 100)) / 100)"
    using assms by (auto simp: py_round2_def split: pyfloat.splits)
  then show ?thesis by blast
qed

lemma nearest_double_45_67: "nearest_double (4567 / 100) = Finite (3213740546593915 / 2 ^ 46)"
proof -
  have e: "double_exponent (4567 / 100) = - 47" by code_simp
  have r: "round_half_even (4567 / 100 / (2 powi (- 47))) = 6427481093187830" by code_simp
  have t: "\<not> overflow_threshold \<le> 4567 / 100" by (simp add: overflow_threshold_def)
  show ?thesis
    unfolding nearest_double_def e r using t by (simp add: power_int_minus)
qed

lemma round2_45_67:
  "py_round2 (Finite (3213740546593915 / 2 ^ 46)) = Inr (Finite (3213740546593915 / 2 ^ 46))"
proof -
  have r: "round_half_even (3213740546593915 / 2 ^ 46 * 100) = 4567" by code_simp
  show ?thesis
    unfolding py_round2_def pyfloat.case r by (simp add: nearest_double_45_67)
qed

lemma float_literal_45_67: "float_literal [52, 53, 46, 54, 55] = Some (4567 / 100)"
  by code_simp

lemma parse_float_45_67:
  assumes "wf_env env"
  shows "parse_float env (ascii ''45.67%'') = Inr (Some (Finite (3213740546593915 / 2 ^ 46)))"
proof -
  note d = wf_is_decimal_ascii [OF assms]
  have a: "ascii ''45.67%'' = [52, 53, 46, 54, 55, 37]" by (simp add: ascii_def)
  have c: "filter (\<lambda>c. is_decimal env c \<or> c = 46) [52, 53, 46, 54, 55, 37] = [52, 53, 46, 54, 55]"
    by (simp add: d is_ascii_digit_def)
  have t: "map (to_ascii env) [52, 53, 46, 54, 55] = [52, 53, 46, 54, 55]"
    by (simp add: to_ascii_def)
  show ?thesis
    unfolding parse_float_eq a c t float_literal_45_67
    by (simp add: nearest_double_45_67 round2_45_67 del: power_numeral)
qed

lemma parse_float_n_a:
  assumes "wf_env env"
  shows "parse_float env (ascii ''N/A'') = Inr None"
proof -
  note d = wf_is_decimal_ascii [OF assms]
  have a: "ascii ''N/A'' = [78, 47, 65]" by (simp add: ascii_def)
  have c: "filter (\<lambda>c. is_decimal env c \<or> c = 46) [78, 47, 65] = []"
    by (simp add: d is_ascii_digit_def)
  have l: "float_literal [] = None" by (simp add: float_literal_def)
  show ?thesis
    unfolding parse_float_eq a c by (simp add: l)
qed

text \<open>
  C6. The float parse is total: on every input it returns a value and raises nothing. It
  keeps the decimal digits and the decimal points; when what is left is not a float
  literal, as for \<^verbatim>\<open>"N/A"\<close>, the result is \<open>None\<close>; otherwise it is the float of that
  literal rounded to two decimals, which is infinity or the double nearest to some multiple
  of 1/100. For \<^verbatim>\<open>"45.67%"\<close> the result is the double written \<^verbatim>\<open>45.67\<close>.
\<close>

theorem parse_float_total:
  assumes "wf_env env"
  shows "(\<exists>r. parse_float env v = Inr r)
   \<and> (parse_float env v = Inr None
        \<longleftrightarrow> float_literal (map (to_ascii env)
                             (filter (\<lambda>c. is_decimal env c \<or> c = 46) v)) = None)
   \<and> (\<forall>q. float_literal (map (to_ascii env)
                           (filter (\<lambda>c. is_decimal env c \<or> c = 46) v)) = Some q \<longrightarrow>
          (\<exists>y. py_round2 (nearest_double q) = Inr y \<and> parse_float env v = Inr (Some y)
               \<and> (y = Infinity \<or> (\<exists>k. y = nearest_double (of_int k / 100)))))
   \<and> parse_float env (ascii ''45.67%'') = Inr (Some (Finite (3213740546593915 / 2 ^ 46)))
   \<and> nearest_double (4567 / 100) = Finite (3213740546593915 / 2 ^ 46)
   \<and> parse_float env (ascii ''N/A'') = Inr None"
proof -
  let ?l = "float_literal (map (to_ascii env) (filter (\<lambda>c. is_decimal env c \<or> c = 46) v))"
  have step: "\<exists>y. py_round2 (nearest_double q) = Inr y \<and> parse_float env v = Inr (Some y)
               \<and> (y = Infinity \<or> (\<exists>k. y = nearest_double (of_int k / 100)))"
    if "?l = Some q" for q
  proof -
    obtain y where y: "py_round2 (nearest_double q) = Inr y"
      using py_round2_no_overflow [OF refl] by blast
    have "parse_float env v = Inr (Some y)" by (simp add: parse_float_eq that y)
    then show ?thesis using y py_round2_two_decimals [OF y] by blast
  qed
  have a: "\<exists>r. parse_float env v = Inr r"
    by (rule parse_float_returns)
  have b: "parse_float env v = Inr None \<longleftrightarrow> ?l = None"
    using step by (cases ?l) (auto simp: parse_float_eq)
  show ?thesis
    using a b step parse_float_45_67 [OF assms] nearest_double_45_67 parse_float_n_a [OF assms]
    by blast
qed

theorem parse_float_total_witness:
  "wf_env sample_env
   \<and> parse_float sample_env (ascii ''1.2.3'') = Inr None
   \<and> parse_float sample_env [65300, 65301, 46, 65302, 65303, 37]
       = Inr (Some (Finite (3213740546593915 / 2 ^ 46)))"
proof -
  have l: "float_literal (map (to_ascii sample_env)
             (filter (\<lambda>c. is_decimal sample_env c \<or> c = 46) (ascii ''1.2.3''))) = None"
    by code_simp
  have f: "float_literal (map (to_ascii sample_env)
             (filter (\<lambda>c. is_decimal sample_env c \<or> c = 46)
                [65300, 65301, 46, 65302, 65303, 37])) = Some (4567 / 100)"
    by code_simp
  note t1 = parse_float_total [OF wf_sample_env, of "ascii ''1.2.3''"]
  note t2 = parse_float_total [OF wf_sample_env, of "[65300, 65301, 46, 65302, 65303, 37]"]
  have "parse_float sample_env (ascii ''1.2.3'') = Inr None"
    using t1 l by blast
  moreover from t2 f obtain y where
    "py_round2 (nearest_double (4567 / 100)) = Inr y"
    "parse_float sample_env [65300, 65301, 46, 65302, 65303, 37] = Inr (Some y)"
    by blast
  then have "parse_float sample_env [65300, 65301, 46, 65302, 65303, 37]
       = Inr (Some (Finite (3213740546593915 / 2 ^ 46)))"
    by (simp add: nearest_double_45_67 round2_45_67 del: power_numeral)
  ultimately show ?thesis using wf_sample_env by simp
qed

section \<open>The loop body of the constituency extractor\<close>

lemma new_group_fields:
  assumes "new_group env cols r name = Inr g"
  shows "g_constituency g = name" "g_candidates g = []"
proof -
  let ?e = "if is_new env cols r then constituency_get env cols r (elect_col cols) else []"
  let ?t = "if is_new env cols r then constituency_get env cols r (turnout_col cols) else []"
  let ?p = "if is_new env cols r then constituency_get env cols r (turnout_pct_col cols) else []"
  obtain p where p: "parse_float env ?p = Inr p" using parse_float_returns by blast
  have "g_constituency g = name \<and> g_candidates g = []"
  proof (cases "parse_int env ?e")
    case (Inl e)
    then show ?thesis using assms by (simp add: new_group_def Let_def)
  next
    case e: (Inr e)
    show ?thesis
    proof (cases "parse_int env ?t")
      case (Inl e')
      then show ?thesis using assms e by (simp add: new_group_def Let_def)
    next
      case (Inr t)
      then show ?thesis using assms e p by (auto simp: new_group_def Let_def)
    qed
  qed
  then show "g_constituency g = name" "g_candidates g = []" by simp_all
qed

lemma row_candidate_fields:
  assumes "row_candidate env cols r = Inr c"
  shows "cand_name c = constituency_get env cols r (candidate_col cols)"
    and "cand_party c = row_party env cols r"
    and "parse_int env (constituency_get env cols r (votes_col cols)) = Inr (cand_votes c)"
    and "parse_float env (constituency_get env cols r (pct_col cols)) = Inr (cand_percentage c)"
proof -
  obtain p where p: "parse_float env (constituency_get env cols r (pct_col cols)) = Inr p"
    using parse_float_returns by blast
  have "cand_name c = constituency_get env cols r (candidate_col cols)
      \<and> cand_party c = row_party env cols r
      \<and> parse_int env (constituency_get env cols r (votes_col cols)) = Inr (cand_votes c)
      \<and> parse_float env (constituency_get env cols r (pct_col cols)) = Inr (cand_percentage c)"
  proof (cases "parse_int env (constituency_get env cols r (votes_col cols))")
    case (Inl e)
    then show ?thesis using assms by (simp add: row_candidate_def)
  next
    case (Inr v)
    then show ?thesis using assms p by (auto simp: row_candidate_def)
  qed
  then show "cand_name c = constituency_get env cols r (candidate_col cols)"
    and "cand_party c = row_party env cols r"
    and "parse_int env (constituency_get env cols r (votes_col cols)) = Inr (cand_votes c)"
    and "parse_float env (constituency_get env cols r (pct_col cols)) = Inr (cand_percentage c)"
    by simp_all
qed

text \<open>Both conversions of a row succeed when no cell of the row is beyond the digit limit.\<close>

lemma new_group_returns:
  assumes "wf_env env" "\<forall>idx. \<not> exceeds_digit_limit env (constituency_get env cols r idx)"
  shows "\<exists>g. new_group env cols r name = Inr g"
proof -
  let ?e = "if is_new env cols r then constituency_get env cols r (elect_col cols) else []"
  let ?t = "if is_new env cols r then constituency_get env cols r (turnout_col cols) else []"
  let ?p = "if is_new env cols r then constituency_get env cols r (turnout_pct_col cols) else []"
  have nil: "\<not> exceeds_digit_limit env []" by (simp add: exceeds_digit_limit_def)
  have "\<not> exceeds_digit_limit env ?e" "\<not> exceeds_digit_limit env ?t"
    using assms(2) nil by auto
  then obtain e t where e: "parse_int env ?e = Inr e" and t: "parse_int env ?t = Inr t"
    using parse_int_result [OF assms(1)] by blast
  obtain p where p: "parse_float env ?p = Inr p" using parse_float_returns by blast
  show ?thesis unfolding new_group_def Let_def e t p by simp
qed

lemma row_candidate_returns:
  assumes "wf_env env" "\<forall>idx. \<not> exceeds_digit_limit env (constituency_get env cols r idx)"
  shows "\<exists>c. row_candidate env cols r = Inr c"
proof -
  obtain v where v: "parse_int env (constituency_get env cols r (votes_col cols)) = Inr v"
    using parse_int_result [OF assms(1)] assms(2) by blast
  obtain p where p: "parse_float env (constituency_get env cols r (pct_col cols)) = Inr p"
    using parse_float_returns by blast
  show ?thesis unfolding row_candidate_def v p by simp
qed

lemma process_row_no_cells:
  "row_cells r = [] \<Longrightarrow> process_row env cols st r = Inr (NoCells, st)"
  by (simp add: process_row_def)

lemma process_row_footer:
  "row_cells r \<noteq> [] \<Longrightarrow> list_ex (\<lambda>kw. py_in kw (row_text env r)) footer_keywords \<Longrightarrow>
   process_row env cols st r = Inr (FooterRow, st)"
  by (simp add: process_row_def)

lemma process_row_no_constituency:
  assumes "row_cells r \<noteq> []" "\<not> list_ex (\<lambda>kw. py_in kw (row_text env r)) footer_keywords"
    and "next_constituency env cols st r = None \<or> next_constituency env cols st r = Some []"
  shows "process_row env cols st r =
           Inr (NoConstituency, st\<lparr>current_constituency := next_constituency env cols st r\<rparr>)"
  using assms by (auto simp: process_row_def Let_def)

lemma process_row_no_candidate:
  assumes "row_cells r \<noteq> []" "\<not> list_ex (\<lambda>kw. py_in kw (row_text env r)) footer_keywords"
    and "next_constituency env cols st r = Some name" "name \<noteq> []"
    and "constituency_get env cols r (candidate_col cols) = []"
    and "constituency_get env cols r (votes_col cols) = []"
  shows "process_row env cols st r =
           Inr (NoCandidate, st\<lparr>current_constituency := next_constituency env cols st r\<rparr>)"
  using assms by (simp add: process_row_def Let_def)

lemma state_update_eq:
  "st\<lparr>current_constituency := cur, constituencies := groups\<rparr>
     = \<lparr>constituencies = groups, current_constituency = cur\<rparr>"
  by (cases st) simp

lemma process_row_candidate:
  assumes "row_cells r \<noteq> []" "\<not> list_ex (\<lambda>kw. py_in kw (row_text env r)) footer_keywords"
    and "next_constituency env cols st r = Some name" "name \<noteq> []"
    and "constituency_get env cols r (candidate_col cols) \<noteq> [] \<or>
         constituency_get env cols r (votes_col cols) \<noteq> []"
  shows "process_row env cols st r =
           bind_err
             (if name \<in> set (map fst (constituencies st)) then Inr (constituencies st)
              else bind_err (new_group env cols r name) (\<lambda>g.
                     Inr (constituencies st @ [(name, g)])))
             (\<lambda>groups.
                bind_err (row_candidate env cols r) (\<lambda>c.
                  Inr (Appended,
                       \<lparr>constituencies = append_candidate name c groups,
                        current_constituency = Some name\<rparr>)))"
proof -
  have "process_row env cols st r =
           bind_err
             (if name \<in> set (map fst (constituencies st)) then Inr (constituencies st)
              else bind_err (new_group env cols r name) (\<lambda>g.
                     Inr (constituencies st @ [(name, g)])))
             (\<lambda>groups.
                bind_err (row_candidate env cols r) (\<lambda>c.
                  Inr (Appended,
                       st\<lparr>current_constituency := Some name,
                          constituencies := append_candidate name c groups\<rparr>)))"
    using assms by (auto simp: process_row_def Let_def)
  then show ?thesis by (simp only: state_update_eq)
qed

text \<open>What a row can do: one of the four skips, the append, or an exception.\<close>

lemma process_row_cases:
  obtains
    (no_cells) "row_cells r = []" "process_row env cols st r = Inr (NoCells, st)"
  | (footer) "row_cells r \<noteq> []" "list_ex (\<lambda>kw. py_in kw (row_text env r)) footer_keywords"
      "process_row env cols st r = Inr (FooterRow, st)"
  | (no_constituency) "row_cells r \<noteq> []"
      "\<not> list_ex (\<lambda>kw. py_in kw (row_text env r)) footer_keywords"
      "next_constituency env cols st r = None \<or> next_constituency env cols st r = Some []"
      "process_row env cols st r =
         Inr (NoConstituency, st\<lparr>current_constituency := next_constituency env cols st r\<rparr>)"
  | (no_candidate) name where "row_cells r \<noteq> []"
      "\<not> list_ex (\<lambda>kw. py_in kw (row_text env r)) footer_keywords"
      "next_constituency env cols st r = Some name" "name \<noteq> []"
      "process_row env cols st r =
         Inr (NoCandidate, st\<lparr>current_constituency := next_constituency env cols st r\<rparr>)"
  | (appended_old) name c where "row_cells r \<noteq> []"
      "\<not> list_ex (\<lambda>kw. py_in kw (row_text env r)) footer_keywords"
      "next_constituency env cols st r = Some name" "name \<noteq> []"
      "name \<in> set (map fst (constituencies st))"
      "row_candidate env cols r = Inr c"
      "process_row env cols st r =
         Inr (Appended,
              \<lparr>constituencies = append_candidate name c (constituencies st),
               current_constituency = Some name\<rparr>)"
  | (appended_new) name g c where "row_cells r \<noteq> []"
      "\<not> list_ex (\<lambda>kw. py_in kw (row_text env r)) footer_keywords"
      "next_constituency env cols st r = Some name" "name \<noteq> []"
      "name \<notin> set (map fst (constituencies st))"
      "new_group env cols r name = Inr g"
      "row_candidate env cols r = Inr c"
      "process_row env cols st r =
         Inr (Appended,
              \<lparr>constituencies = append_candidate name c (constituencies st @ [(name, g)]),
               current_constituency = Some name\<rparr>)"
  | (raised) name e where "row_cells r \<noteq> []"
      "\<not> list_ex (\<lambda>kw. py_in kw (row_text env r)) footer_keywords"
      "next_constituency env cols st r = Some name" "name \<noteq> []"
      "(name \<notin> set (map fst (constituencies st)) \<and> new_group env cols r name = Inl e)
       \<or> row_candidate env cols r = Inl e"
      "process_row env cols st r = Inl e"
proof (cases "row_cells r = []")
  case True
  then show ?thesis using no_cells process_row_no_cells by blast
next
  case cells: False
  show ?thesis
  proof (cases "list_ex (\<lambda>kw. py_in kw (row_text env r)) footer_keywords")
    case True
    then show ?thesis using footer cells process_row_footer by blast
  next
    case nf: False
    show ?thesis
    proof (cases "next_constituency env cols st r = None \<or> next_constituency env cols st r = Some []")
      case True
      then show ?thesis
        using no_constituency [OF cells nf True] process_row_no_constituency [OF cells nf True]
        by blast
    next
      case False
      then obtain name where name: "next_constituency env cols st r = Some name" "name \<noteq> []"
        by (cases "next_constituency env cols st r") auto
      show ?thesis
      proof (cases "constituency_get env cols r (candidate_col cols) = [] \<and>
                    constituency_get env cols r (votes_col cols) = []")
        case True
        then show ?thesis
          using no_candidate [OF cells nf name] process_row_no_candidate [OF cells nf name]
          by blast
      next
        case False
        then have some: "constituency_get env cols r (candidate_col cols) \<noteq> [] \<or>
                         constituency_get env cols r (votes_col cols) \<noteq> []"
          by blast
        note p = process_row_candidate [OF cells nf name some]
        show ?thesis
        proof (cases "name \<in> set (map fst (constituencies st))")
          case old: True
          show ?thesis
          proof (cases "row_candidate env cols r")
            case (Inl e)
            then have "process_row env cols st r = Inl e" using p old by simp
            then show ?thesis using raised [OF cells nf name] Inl by blast
          next
            case (Inr c)
            then have "process_row env cols st r =
                Inr (Appended,
                     \<lparr>constituencies = append_candidate name c (constituencies st),
                      current_constituency = Some name\<rparr>)"
              using p old by simp
            then show ?thesis using appended_old [OF cells nf name old Inr] by blast
          qed
        next
          case new: False
          show ?thesis
          proof (cases "new_group env cols r name")
            case (Inl e)
            then have "process_row env cols st r = Inl e" using p new by simp
            then show ?thesis using raised [OF cells nf name] Inl new by blast
          next
            case g: (Inr g)
            show ?thesis
            proof (cases "row_candidate env cols r")
              case (Inl e)
              then have "process_row env cols st r = Inl e" using p new g by simp
              then show ?thesis using raised [OF cells nf name] Inl by blast
            next
              case (Inr c)
              then have "process_row env cols st r =
                  Inr (Appended,
                       \<lparr>constituencies =
                          append_candidate name c (constituencies st @ [(name, g)]),
                        current_constituency = Some name\<rparr>)"
                using p new g by simp
              then show ?thesis using appended_new [OF cells nf name new g Inr] by blast
            qed
          qed
        qed
      qed
    qed
  qed
qed

lemma process_row_current:
  assumes "process_row env cols st r = Inr (out, st')" "out \<noteq> NoCells" "out \<noteq> FooterRow"
  shows "current_constituency st' = next_constituency env cols st r"
  by (rule process_row_cases [where r = r and env = env and cols = cols and st = st])
     (use assms in auto)

lemma process_row_returns:
  assumes "wf_env env" "\<forall>idx. \<not> exceeds_digit_limit env (constituency_get env cols r idx)"
  shows "\<exists>out st'. process_row env cols st r = Inr (out, st')"
proof (rule process_row_cases [where r = r and env = env and cols = cols and st = st])
  fix name e
  assume "(name \<notin> set (map fst (constituencies st)) \<and> new_group env cols r name = Inl e)
       \<or> row_candidate env cols r = Inl e"
  then have False
    using new_group_returns [OF assms, of name] row_candidate_returns [OF assms] by auto
  then show ?thesis ..
qed auto


section \<open>Footer rows\<close>

text \<open>
  C1 (amended). The constituency extractor skips a row as a footer row exactly when the
  row has cells and its cleaned, lowercased text contains one of \<^verbatim>\<open>total\<close>, \<^verbatim>\<open>source\<close>,
  \<^verbatim>\<open>valid votes\<close>, \<^verbatim>\<open>invalid\<close>, \<^verbatim>\<open>registered\<close>; the state is left as it was. This is not
  the keyword set of the summary extractor: \<^verbatim>\<open>valid\<close> alone and \<^verbatim>\<open>blank\<close> do not make a
  footer row here.
\<close>

theorem footer_row_iff:
  "((\<exists>st'. process_row env cols st r = Inr (FooterRow, st')) \<longleftrightarrow>
      row_cells r \<noteq> [] \<and>
      (\<exists>kw \<in> set [ascii ''total'', ascii ''source'', ascii ''valid votes'', ascii ''invalid'',
                   ascii ''registered''].
         py_in kw (row_text env r)))
   \<and> (\<forall>st'. process_row env cols st r = Inr (FooterRow, st') \<longrightarrow> st' = st)"
proof -
  have k: "list_ex (\<lambda>kw. py_in kw (row_text env r)) footer_keywords \<longleftrightarrow>
           (\<exists>kw \<in> set [ascii ''total'', ascii ''source'', ascii ''valid votes'',
                        ascii ''invalid'', ascii ''registered''].
              py_in kw (row_text env r))"
    unfolding footer_keywords_def list_ex_iff ..
  show ?thesis
    unfolding k [symmetric]
    by (rule process_row_cases [where r = r and env = env and cols = cols and st = st]) auto
qed

theorem footer_row_iff_witness:
  "row_cells sample_row_total \<noteq> []
   \<and> py_in (ascii ''total'') (row_text sample_env sample_row_total)
   \<and> process_row sample_env sample_columns initial_state sample_row_total
       = Inr (FooterRow, initial_state)
   \<and> row_cells sample_row_nbsp_footer \<noteq> []
   \<and> py_in (ascii ''valid votes'') (row_text sample_env sample_row_nbsp_footer)
   \<and> process_row sample_env sample_columns initial_state sample_row_nbsp_footer
       = Inr (FooterRow, initial_state)"
proof -
  have c: "row_cells sample_row_total \<noteq> []" "row_cells sample_row_nbsp_footer \<noteq> []"
    by (simp_all add: sample_row_total_def sample_row_nbsp_footer_def row_of_def)
  have t: "py_in (ascii ''total'') (row_text sample_env sample_row_total)" by code_simp
  have v: "py_in (ascii ''valid votes'') (row_text sample_env sample_row_nbsp_footer)"
    by code_simp
  note a = footer_row_iff [of sample_env sample_columns initial_state sample_row_total]
  note b = footer_row_iff [of sample_env sample_columns initial_state sample_row_nbsp_footer]
  from c(1) t a have "\<exists>st'. process_row sample_env sample_columns initial_state sample_row_total
                    = Inr (FooterRow, st')"
    by simp
  then have 1: "process_row sample_env sample_columns initial_state sample_row_total
                  = Inr (FooterRow, initial_state)"
    using a by auto
  from c(2) v b have "\<exists>st'. process_row sample_env sample_columns initial_state
                    sample_row_nbsp_footer = Inr (FooterRow, st')"
    by simp
  then have 2: "process_row sample_env sample_columns initial_state sample_row_nbsp_footer
                  = Inr (FooterRow, initial_state)"
    using b by auto
  show ?thesis by (intro conjI c t v 1 2)
qed

text \<open>
  The claim as stated fails: a row whose text contains \<^verbatim>\<open>blank\<close>, a keyword of the summary
  extractor, is not skipped by the constituency extractor but yields a candidate.
\<close>

theorem footer_row_blank_counterexample:
  "py_in (ascii ''blank'') (row_text sample_env sample_row_blank)
   \<and> ascii ''blank'' \<in> set results_footer_keywords
   \<and> map_sum id fst (process_row sample_env sample_columns initial_state sample_row_blank)
       = Inr Appended"
  by code_simp


section \<open>Starting a group\<close>

lemma constituency_get_in_cells:
  "constituency_get env cols r idx = []
   \<or> (\<exists>c \<in> set (row_cells r). constituency_get env cols r idx = cell_text env c)"
proof (cases idx)
  case None
  then show ?thesis by (simp add: constituency_get_def)
next
  case (Some i)
  show ?thesis
  proof (cases "0 \<le> int i - 1 \<and> int i - 1 < int (length (data_cells env cols r))")
    case False
    then show ?thesis by (auto simp: constituency_get_def Some Let_def)
  next
    case True
    then have "data_cells env cols r ! nat (int i - 1) \<in> set (data_cells env cols r)"
      by (intro nth_mem) linarith
    moreover have "set (data_cells env cols r) \<subseteq> set (row_cells r)"
      by (cases "row_cells r") (auto simp: data_cells_def)
    ultimately show ?thesis
      using True by (auto simp: constituency_get_def Some Let_def)
  qed
qed

lemma short_cells_within_limit:
  assumes "wf_env env" "\<forall>c \<in> set (row_cells r). length (cell_text env c) \<le> 640"
  shows "\<forall>idx. \<not> exceeds_digit_limit env (constituency_get env cols r idx)"
proof
  fix idx
  have "length (constituency_get env cols r idx) \<le> 640"
    using constituency_get_in_cells [of env cols r idx] assms(2) by auto
  then show "\<not> exceeds_digit_limit env (constituency_get env cols r idx)"
    by (rule ascii_short_within_limit [OF assms(1)])
qed

text \<open>
  C2 (amended). A row starts a new constituency group if and only if its first cell has a
  non-empty \<^verbatim>\<open>rowspan\<close> attribute, whatever its value, or (fallback) the constituency
  column is logical column 0 and the first cell's cleaned text is non-empty and is not
  made of digits only once commas and full stops are removed. On a row with cells that is
  not a footer row and whose conversion raises nothing, the current constituency becomes
  the first cell's text when the row starts a group and that text is not empty, and is
  unchanged otherwise; the cells read for the row are all but the first when the row
  starts a group, and all of them otherwise. In particular a first cell with
  \<^verbatim>\<open>rowspan="1"\<close> starts a new group by itself. Such a row raises nothing when none of
  its cells has more digits than the interpreter's limit.
\<close>

theorem group_start:
  assumes "wf_env env"
  shows
  "(\<forall>out st'. process_row env cols st r = Inr (out, st') \<and> out \<noteq> NoCells \<and> out \<noteq> FooterRow \<longrightarrow>
      current_constituency st' =
        (if ((\<exists>s. cell_rowspan (first_cell r) = Some s \<and> s \<noteq> []) \<or>
             (const_col cols = Some 0 \<and> cell_text env (first_cell r) \<noteq> [] \<and>
              \<not> py_isdigit env (remove_char 46 (remove_char 44 (cell_text env (first_cell r))))))
            \<and> cell_text env (first_cell r) \<noteq> []
         then Some (cell_text env (first_cell r)) else current_constituency st))
   \<and> data_cells env cols r =
        (if (\<exists>s. cell_rowspan (first_cell r) = Some s \<and> s \<noteq> []) \<or>
            (const_col cols = Some 0 \<and> cell_text env (first_cell r) \<noteq> [] \<and>
             \<not> py_isdigit env (remove_char 46 (remove_char 44 (cell_text env (first_cell r)))))
         then tl (row_cells r) else row_cells r)
   \<and> (cell_rowspan (first_cell r) = Some (ascii ''1'') \<longrightarrow>
        data_cells env cols r = tl (row_cells r)
        \<and> (\<forall>out st'. process_row env cols st r = Inr (out, st') \<and> out \<noteq> NoCells
               \<and> out \<noteq> FooterRow \<and> cell_text env (first_cell r) \<noteq> [] \<longrightarrow>
             current_constituency st' = Some (cell_text env (first_cell r))))
   \<and> (row_cells r \<noteq> [] \<and> \<not> list_ex (\<lambda>kw. py_in kw (row_text env r)) footer_keywords
        \<and> (\<forall>idx. \<not> exceeds_digit_limit env (constituency_get env cols r idx)) \<longrightarrow>
        (\<exists>out st'. process_row env cols st r = Inr (out, st') \<and> out \<noteq> NoCells
           \<and> out \<noteq> FooterRow))"
  (is "?A \<and> ?B \<and> ?C \<and> ?D")
proof -
  have n: "is_new env cols r \<longleftrightarrow>
      (\<exists>s. cell_rowspan (first_cell r) = Some s \<and> s \<noteq> []) \<or>
      (const_col cols = Some 0 \<and> cell_text env (first_cell r) \<noteq> [] \<and>
       \<not> py_isdigit env (remove_char 46 (remove_char 44 (cell_text env (first_cell r)))))"
    by (cases "cell_rowspan (first_cell r)") (simp_all add: is_new_def)
  have A: ?A
  proof (intro allI impI)
    fix out st'
    assume h: "process_row env cols st r = Inr (out, st') \<and> out \<noteq> NoCells \<and> out \<noteq> FooterRow"
    then have "current_constituency st' = next_constituency env cols st r"
      using process_row_current by blast
    then show "current_constituency st' =
        (if ((\<exists>s. cell_rowspan (first_cell r) = Some s \<and> s \<noteq> []) \<or>
             (const_col cols = Some 0 \<and> cell_text env (first_cell r) \<noteq> [] \<and>
              \<not> py_isdigit env (remove_char 46 (remove_char 44 (cell_text env (first_cell r))))))
            \<and> cell_text env (first_cell r) \<noteq> []
         then Some (cell_text env (first_cell r)) else current_constituency st)"
      unfolding next_constituency_def n by simp
  qed
  have B: ?B
    unfolding data_cells_def n by simp
  have one: "is_new env cols r" if "cell_rowspan (first_cell r) = Some (ascii ''1'')"
    using that by (simp add: is_new_def ascii_def)
  have C: ?C
  proof (intro impI conjI allI)
    assume s: "cell_rowspan (first_cell r) = Some (ascii ''1'')"
    show "data_cells env cols r = tl (row_cells r)"
      using one [OF s] by (simp add: data_cells_def)
    fix out st'
    assume h: "process_row env cols st r = Inr (out, st') \<and> out \<noteq> NoCells
               \<and> out \<noteq> FooterRow \<and> cell_text env (first_cell r) \<noteq> []"
    then have "current_constituency st' = next_constituency env cols st r"
      using process_row_current by blast
    then show "current_constituency st' = Some (cell_text env (first_cell r))"
      using one [OF s] h by (simp add: next_constituency_def)
  qed
  have D: ?D
  proof (intro impI)
    assume h: "row_cells r \<noteq> [] \<and> \<not> list_ex (\<lambda>kw. py_in kw (row_text env r)) footer_keywords
        \<and> (\<forall>idx. \<not> exceeds_digit_limit env (constituency_get env cols r idx))"
    then obtain out st' where p: "process_row env cols st r = Inr (out, st')"
      using process_row_returns [OF assms] by blast
    have "out \<noteq> NoCells \<and> out \<noteq> FooterRow"
      by (rule process_row_cases [where r = r and env = env and cols = cols and st = st])
         (use h p in auto)
    then show "\<exists>out st'. process_row env cols st r = Inr (out, st') \<and> out \<noteq> NoCells
           \<and> out \<noteq> FooterRow"
      using p by blast
  qed
  from A B C D show ?thesis by (intro conjI)
qed

theorem group_start_witness:
  "wf_env sample_env
   \<and> cell_rowspan (first_cell sample_row_rowspan1) = Some (ascii ''1'')
   \<and> row_cells sample_row_rowspan1 \<noteq> []
   \<and> \<not> list_ex (\<lambda>kw. py_in kw (row_text sample_env sample_row_rowspan1)) footer_keywords
   \<and> (\<forall>idx. \<not> exceeds_digit_limit sample_env
               (constituency_get sample_env sample_columns sample_row_rowspan1 idx))
   \<and> (\<exists>out st'. process_row sample_env sample_columns initial_state sample_row_rowspan1
                   = Inr (out, st')
         \<and> out \<noteq> NoCells \<and> out \<noteq> FooterRow
         \<and> current_constituency st' = Some (ascii ''2018''))"
proof -
  have a: "cell_rowspan (first_cell sample_row_rowspan1) = Some (ascii ''1'')" by code_simp
  have b: "row_cells sample_row_rowspan1 \<noteq> []" by code_simp
  have c: "\<not> list_ex (\<lambda>kw. py_in kw (row_text sample_env sample_row_rowspan1)) footer_keywords"
    by code_simp
  have d: "cell_text sample_env (first_cell sample_row_rowspan1) = ascii ''2018''"
    by code_simp
  have "list_all (\<lambda>c. length (cell_text sample_env c) \<le> 640) (row_cells sample_row_rowspan1)"
    by code_simp
  then have "\<forall>c \<in> set (row_cells sample_row_rowspan1). length (cell_text sample_env c) \<le> 640"
    by (simp add: list_all_iff)
  from short_cells_within_limit [OF wf_sample_env this]
  have e: "\<forall>idx. \<not> exceeds_digit_limit sample_env
               (constituency_get sample_env sample_columns sample_row_rowspan1 idx)" .
  have ne: "ascii ''2018'' \<noteq> []" by (simp add: ascii_def)
  note t = group_start [OF wf_sample_env, of sample_columns initial_state sample_row_rowspan1]
  from t b c e obtain out st' where
    p: "process_row sample_env sample_columns initial_state sample_row_rowspan1 = Inr (out, st')"
      "out \<noteq> NoCells" "out \<noteq> FooterRow"
    by blast
  from t a p d ne have "current_constituency st' = Some (ascii ''2018'')"
    by force
  then show ?thesis using wf_sample_env a b c e p by blast
qed

text \<open>
  The claim as stated fails: a first cell with \<^verbatim>\<open>rowspan="1"\<close> and a purely numeric text
  starts a group although the span is not greater than one and the fallback does not
  apply.
\<close>

theorem rowspan_one_counterexample:
  "cell_rowspan (first_cell sample_row_rowspan1) = Some (ascii ''1'')
   \<and> py_isdigit sample_env (remove_char 46 (remove_char 44
        (cell_text sample_env (first_cell sample_row_rowspan1))))
   \<and> is_new sample_env sample_columns sample_row_rowspan1
   \<and> map_sum id (\<lambda>x. (fst x, current_constituency (snd x)))
        (process_row sample_env sample_columns initial_state sample_row_rowspan1)
       = Inr (Appended, Some (ascii ''2018''))"
  by code_simp


section \<open>Reading the columns of a row\<close>

lemma append_candidate_keys [simp]: "map fst (append_candidate name c groups) = map fst groups"
  by (induction groups) (auto simp: append_candidate_def)

lemma append_candidate_last:
  "(name, g) \<in> set (append_candidate name c groups) \<Longrightarrow>
   g_candidates g \<noteq> [] \<and> last (g_candidates g) = c"
  by (auto simp: append_candidate_def split: if_splits)

lemma key_has_group: "name \<in> set (map fst groups) \<Longrightarrow> \<exists>g. (name, g) \<in> set groups"
  by auto

lemma constituency_get_new:
  assumes "is_new env cols r"
  shows "constituency_get env cols r (Some i) =
           (if 1 \<le> i \<and> i < length (row_cells r) then cell_text env (row_cells r ! i) else [])"
proof (cases "1 \<le> i \<and> i < length (row_cells r)")
  case True
  then have "nat (int i - 1) = i - 1" "Suc (i - 1) = i" "i - 1 < length (tl (row_cells r))"
    by auto
  then show ?thesis
    using True assms by (auto simp: constituency_get_def data_cells_def Let_def nth_tl)
next
  case False
  then show ?thesis
    using assms by (auto simp: constituency_get_def data_cells_def Let_def)
qed

lemma constituency_get_old:
  assumes "\<not> is_new env cols r"
  shows "constituency_get env cols r (Some i) =
           (if 1 \<le> i \<and> i \<le> length (row_cells r) then cell_text env (row_cells r ! (i - 1))
            else [])"
proof (cases "1 \<le> i \<and> i \<le> length (row_cells r)")
  case True
  then have "nat (int i - 1) = i - 1" by auto
  then show ?thesis
    using True assms by (auto simp: constituency_get_def data_cells_def Let_def)
next
  case False
  then show ?thesis
    using assms by (auto simp: constituency_get_def data_cells_def Let_def)
qed

lemma process_row_appended_candidate:
  assumes "process_row env cols st r = Inr (Appended, st')"
  shows "\<exists>name c. current_constituency st' = Some name \<and> row_candidate env cols r = Inr c
           \<and> (\<exists>g. (name, g) \<in> set (constituencies st'))
           \<and> (\<forall>g. (name, g) \<in> set (constituencies st') \<longrightarrow>
                 g_candidates g \<noteq> [] \<and> last (g_candidates g) = c)"
proof -
  have *: "\<exists>name c. current_constituency st' = Some name \<and> row_candidate env cols r = Inr c
           \<and> (\<exists>g. (name, g) \<in> set (constituencies st'))
           \<and> (\<forall>g. (name, g) \<in> set (constituencies st') \<longrightarrow>
                 g_candidates g \<noteq> [] \<and> last (g_candidates g) = c)"
    if c: "row_candidate env cols r = Inr c"
      and k: "name \<in> set (map fst groups)"
      and st': "st' = \<lparr>constituencies = append_candidate name c groups,
                       current_constituency = Some name\<rparr>"
    for name c groups
  proof -
    have "name \<in> set (map fst (append_candidate name c groups))" using k by simp
    then have "\<exists>g'. (name, g') \<in> set (append_candidate name c groups)"
      by (rule key_has_group)
    moreover have "\<forall>g'. (name, g') \<in> set (append_candidate name c groups) \<longrightarrow>
                     g_candidates g' \<noteq> [] \<and> last (g_candidates g') = c"
      using append_candidate_last by blast
    ultimately have "current_constituency st' = Some name \<and> row_candidate env cols r = Inr c
           \<and> (\<exists>g. (name, g) \<in> set (constituencies st'))
           \<and> (\<forall>g. (name, g) \<in> set (constituencies st') \<longrightarrow>
                 g_candidates g \<noteq> [] \<and> last (g_candidates g) = c)"
      using c unfolding st' by simp
    then show ?thesis by blast
  qed
  show ?thesis
  proof (rule process_row_cases [where r = r and env = env and cols = cols and st = st])
    fix name c
    assume "name \<in> set (map fst (constituencies st))" "row_candidate env cols r = Inr c"
      "process_row env cols st r =
         Inr (Appended,
              \<lparr>constituencies = append_candidate name c (constituencies st),
               current_constituency = Some name\<rparr>)"
    then show ?thesis using * [of c name "constituencies st"] assms by simp
  next
    fix name g c
    assume "row_candidate env cols r = Inr c"
      "process_row env cols st r =
         Inr (Appended,
              \<lparr>constituencies = append_candidate name c (constituencies st @ [(name, g)]),
               current_constituency = Some name\<rparr>)"
    then show ?thesis using * [of c name "constituencies st @ [(name, g)]"] assms by simp
  qed (use assms in auto)
qed

text \<open>
  C3 (amended). On a row that starts a group the first cell is dropped from the cells
  that are read, and its text becomes the constituency name when it is not empty (the
  name is kept as it was when the text is empty); logical column \<open>i\<close> is read from cell
  \<open>i - 1\<close> of the remaining cells, which is physical cell \<open>i\<close> of the row. On a row that does
  not start a group the same adjustment is applied to the full list of cells: logical
  column \<open>i\<close> is read from physical cell \<open>i - 1\<close>. Column 0 and a column beyond the cells
  read as the empty string. The candidate appended for a row has its name, party and
  votes read in this way.
\<close>

theorem constituency_get_cells:
  "(is_new env cols r \<longrightarrow>
      constituency_get env cols r (Some i) =
        (if 1 \<le> i \<and> i < length (row_cells r) then cell_text env (row_cells r ! i) else []))
   \<and> (\<not> is_new env cols r \<longrightarrow>
      constituency_get env cols r (Some i) =
        (if 1 \<le> i \<and> i \<le> length (row_cells r) then cell_text env (row_cells r ! (i - 1))
         else []))
   \<and> (is_new env cols r \<longrightarrow>
        data_cells env cols r = tl (row_cells r)
        \<and> next_constituency env cols st r =
            (if cell_text env (first_cell r) \<noteq> [] then Some (cell_text env (first_cell r))
             else current_constituency st))
   \<and> (\<forall>st'. process_row env cols st r = Inr (Appended, st') \<longrightarrow>
        (\<exists>name c. current_constituency st' = Some name
           \<and> cand_name c = constituency_get env cols r (candidate_col cols)
           \<and> cand_party c = row_party env cols r
           \<and> parse_int env (constituency_get env cols r (votes_col cols)) = Inr (cand_votes c)
           \<and> (\<exists>g. (name, g) \<in> set (constituencies st'))
           \<and> (\<forall>g. (name, g) \<in> set (constituencies st') \<longrightarrow>
                 g_candidates g \<noteq> [] \<and> last (g_candidates g) = c)))"
proof -
  have d: "\<exists>name c. current_constituency st' = Some name
           \<and> cand_name c = constituency_get env cols r (candidate_col cols)
           \<and> cand_party c = row_party env cols r
           \<and> parse_int env (constituency_get env cols r (votes_col cols)) = Inr (cand_votes c)
           \<and> (\<exists>g. (name, g) \<in> set (constituencies st'))
           \<and> (\<forall>g. (name, g) \<in> set (constituencies st') \<longrightarrow>
                 g_candidates g \<noteq> [] \<and> last (g_candidates g) = c)"
    if "process_row env cols st r = Inr (Appended, st')" for st'
  proof -
    from process_row_appended_candidate [OF that] obtain name c where
      nc: "current_constituency st' = Some name" "row_candidate env cols r = Inr c"
        "\<exists>g. (name, g) \<in> set (constituencies st')"
        "\<forall>g. (name, g) \<in> set (constituencies st') \<longrightarrow>
             g_candidates g \<noteq> [] \<and> last (g_candidates g) = c"
      by blast
    note f = row_candidate_fields [OF nc(2)]
    show ?thesis using nc f(1,2,3) by blast
  qed
  show ?thesis
    using constituency_get_new [of env cols r i] constituency_get_old [of env cols r i] d
    by (simp add: next_constituency_def data_cells_def)
qed

theorem constituency_get_cells_witness:
  "is_new sample_env sample_columns sample_row_start
   \<and> constituency_get sample_env sample_columns sample_row_start (Some 2) = ascii ''Alice''
   \<and> next_constituency sample_env sample_columns initial_state sample_row_start
       = Some (ascii ''Carriacou'')
   \<and> \<not> is_new sample_env sample_columns sample_row_next
   \<and> constituency_get sample_env sample_columns sample_row_next (Some 2) = ascii ''NDC''
   \<and> \<not> is_new sample_env sample_columns sample_row_nbsp_first
   \<and> constituency_get sample_env sample_columns sample_row_nbsp_first (Some 2) = ascii ''NDC''"
proof -
  have a: "is_new sample_env sample_columns sample_row_start" by code_simp
  have b: "\<not> is_new sample_env sample_columns sample_row_next" by code_simp
  have b': "\<not> is_new sample_env sample_columns sample_row_nbsp_first" by code_simp
  have c: "length (row_cells sample_row_start) = 4"
    "cell_text sample_env (row_cells sample_row_start ! 2) = ascii ''Alice''"
    "cell_text sample_env (first_cell sample_row_start) = ascii ''Carriacou''"
    by code_simp+
  have d: "length (row_cells sample_row_next) = 4"
    "cell_text sample_env (row_cells sample_row_next ! (2 - 1)) = ascii ''NDC''"
    by code_simp+
  have e: "length (row_cells sample_row_nbsp_first) = 4"
    "cell_text sample_env (row_cells sample_row_nbsp_first ! (2 - 1)) = ascii ''NDC''"
    by code_simp+
  have ne: "ascii ''Carriacou'' \<noteq> []" by (simp add: ascii_def)
  note s = constituency_get_cells [of sample_env sample_columns sample_row_start 2 initial_state]
  note n = constituency_get_cells [of sample_env sample_columns sample_row_next 2 initial_state]
  note m = constituency_get_cells
    [of sample_env sample_columns sample_row_nbsp_first 2 initial_state]
  have 1: "constituency_get sample_env sample_columns sample_row_start (Some 2) = ascii ''Alice''"
    using s a c by simp
  have 2: "next_constituency sample_env sample_columns initial_state sample_row_start
                   = Some (ascii ''Carriacou'')"
    using s a c ne by simp
  have 3: "constituency_get sample_env sample_columns sample_row_next (Some 2) = ascii ''NDC''"
    using n b d by simp
  have 4: "constituency_get sample_env sample_columns sample_row_nbsp_first (Some 2)
             = ascii ''NDC''"
    using m b' e by simp
  show ?thesis by (intro conjI a b b' 1 2 3 4)
qed

text \<open>
  The claim as stated fails on a row that does not start a group: logical column 2 is not
  read from physical cell 2 (\<^verbatim>\<open>Bob\<close>) but from physical cell 1 (\<^verbatim>\<open>NDC\<close>).
\<close>

theorem non_starting_row_counterexample:
  "\<not> is_new sample_env sample_columns sample_row_next
   \<and> cell_text sample_env (row_cells sample_row_next ! 2) = ascii ''Bob''
   \<and> constituency_get sample_env sample_columns sample_row_next (Some 2) = ascii ''NDC''"
  by code_simp

section \<open>The constituency anchor\<close>

text \<open>
  C7. On a page without an element whose id is \<^verbatim>\<open>By_constituency\<close> the locator returns
  \<open>None\<close>, whatever tables the page has, and the caller neither fails nor writes a
  constituency file: it reports the missing section and ends normally.
\<close>

theorem no_anchor_no_table:
  "ascii ''By_constituency'' \<notin> set (soup_ids s) \<longrightarrow>
     find_constituency_table env s = None \<and> constituency_stage env s = Inr SkippedNoSection"
  by (simp add: find_constituency_table_def constituency_stage_def)

theorem no_anchor_no_table_witness:
  "ascii ''By_constituency'' \<notin> set (soup_ids sample_soup)
   \<and> is_constituency_table sample_env sample_table
   \<and> sample_table \<in> set (soup_wikitables sample_soup)
   \<and> find_constituency_table sample_env sample_soup = None
   \<and> constituency_stage sample_env sample_soup = Inr SkippedNoSection"
proof -
  have a: "ascii ''By_constituency'' \<notin> set (soup_ids sample_soup)"
    by (simp add: sample_soup_def ascii_def)
  have b: "is_constituency_table sample_env sample_table" by code_simp
  have c: "sample_table \<in> set (soup_wikitables sample_soup)"
    by (simp add: sample_soup_def)
  show ?thesis
    using no_anchor_no_table [of sample_soup sample_env] a b c by simp
qed


section \<open>Totals and winners\<close>

lemma max_first_split:
  "\<exists>pre post. b # xs = pre @ max_first key b xs # post
      \<and> (\<forall>x \<in> set pre. key x < key (max_first key b xs))
      \<and> (\<forall>x \<in> set post. key x \<le> key (max_first key b xs))"
proof (induction xs arbitrary: b)
  case Nil
  have "[b] = [] @ b # [] \<and> (\<forall>x \<in> set []. key x < key b) \<and> (\<forall>x \<in> set []. key x \<le> key b)"
    by simp
  then show ?case unfolding max_first.simps by blast
next
  case (Cons x xs)
  define b' where "b' = (if key b < key x then x else b)"
  define w where "w = max_first key b' xs"
  from Cons.IH [of b'] obtain pre post where
    s: "b' # xs = pre @ w # post"
    and lt: "\<forall>y \<in> set pre. key y < key w"
    and le: "\<forall>y \<in> set post. key y \<le> key w"
    unfolding w_def by blast
  have w: "max_first key b (x # xs) = w" by (simp add: w_def b'_def)
  have b'le: "key b' \<le> key w"
  proof (cases pre)
    case Nil
    then have "b' = w" using s by simp
    then show ?thesis by simp
  next
    case (Cons p ps)
    then have "b' \<in> set pre" using s by simp
    then show ?thesis using lt by force
  qed
  show ?case
  proof (cases "key b < key x")
    case True
    then have bx: "b' = x" by (simp add: b'_def)
    have "b # x # xs = (b # pre) @ w # post" using s bx by simp
    moreover have "\<forall>y \<in> set (b # pre). key y < key w"
      using True b'le lt bx by auto
    ultimately show ?thesis unfolding w using le by blast
  next
    case False
    then have bb: "b' = b" by (simp add: b'_def)
    show ?thesis
    proof (cases pre)
      case Nil
      then have "b # x # xs = [] @ w # (x # post)" using s bb by simp
      moreover have "\<forall>y \<in> set (x # post). key y \<le> key w"
        using False b'le le bb by auto
      moreover have "\<forall>y \<in> set []. key y < key w" by simp
      ultimately show ?thesis unfolding w by blast
    next
      case (Cons p ps)
      then have "b # x # xs = (b # x # ps) @ w # post" using s bb by simp
      moreover have "p = b" using s bb Cons by simp
      then have "\<forall>y \<in> set (b # x # ps). key y < key w"
        using False lt Cons by auto
      ultimately show ?thesis unfolding w using le by blast
    qed
  qed
qed

lemma py_max_split:
  assumes "py_max key xs = Some w"
  shows "\<exists>pre post. xs = pre @ w # post
           \<and> (\<forall>x \<in> set pre. key x < key w) \<and> (\<forall>x \<in> set post. key x \<le> key w)"
proof (cases xs)
  case Nil
  then show ?thesis using assms by (simp add: py_max_def)
next
  case (Cons b rest)
  then have "w = max_first key b rest" using assms by (simp add: py_max_def)
  then show ?thesis using max_first_split [of b rest key] Cons by simp
qed

lemma py_max_None: "py_max key xs = None \<longleftrightarrow> xs = []"
  by (cases xs) (simp_all add: py_max_def)

lemma known_votes_Nil [simp]: "known_votes [] = []"
  by (simp add: known_votes_def)

lemma known_votes_Cons:
  "known_votes (c # cs) =
     (case cand_votes c of None \<Rightarrow> known_votes cs | Some v \<Rightarrow> (c, v) # known_votes cs)"
  by (cases "cand_votes c") (simp_all add: known_votes_def)

lemma known_votes_append [simp]: "known_votes (xs @ ys) = known_votes xs @ known_votes ys"
  by (induction xs) (simp_all add: known_votes_Cons split: option.splits)

lemma known_votes_set:
  "(c, v) \<in> set (known_votes cs) \<longleftrightarrow> c \<in> set cs \<and> cand_votes c = Some v"
  by (induction cs) (auto simp: known_votes_Cons split: option.splits)

lemma known_votes_empty: "known_votes cs = [] \<longleftrightarrow> (\<forall>c \<in> set cs. cand_votes c = None)"
  by (induction cs) (auto simp: known_votes_Cons split: option.splits)

lemma known_votes_split:
  "known_votes cs = ks @ (c, v) # ks' \<Longrightarrow>
   \<exists>pre post. cs = pre @ c # post \<and> cand_votes c = Some v
      \<and> known_votes pre = ks \<and> known_votes post = ks'"
proof (induction cs arbitrary: ks)
  case Nil
  then show ?case by simp
next
  case (Cons a cs)
  show ?case
  proof (cases "cand_votes a")
    case None
    then have "known_votes cs = ks @ (c, v) # ks'"
      using Cons.prems by (simp add: known_votes_Cons)
    from Cons.IH [OF this] obtain pre post where
      "cs = pre @ c # post" "cand_votes c = Some v" "known_votes pre = ks"
      "known_votes post = ks'" by blast
    then have "a # cs = (a # pre) @ c # post \<and> cand_votes c = Some v
        \<and> known_votes (a # pre) = ks \<and> known_votes post = ks'"
      using None by (simp add: known_votes_Cons)
    then show ?thesis by blast
  next
    case (Some u)
    then have eq: "(a, u) # known_votes cs = ks @ (c, v) # ks'"
      using Cons.prems by (simp add: known_votes_Cons)
    show ?thesis
    proof (cases ks)
      case Nil
      then have "a = c" "u = v" "known_votes cs = ks'" using eq by simp_all
      then have "a # cs = [] @ c # cs \<and> cand_votes c = Some v
          \<and> known_votes [] = ks \<and> known_votes cs = ks'"
        using Some Nil by simp
      then show ?thesis by blast
    next
      case (Cons k ks2)
      then have k: "k = (a, u)" and rest: "known_votes cs = ks2 @ (c, v) # ks'"
        using eq by simp_all
      from Cons.IH [OF rest] obtain pre post where
        "cs = pre @ c # post" "cand_votes c = Some v" "known_votes pre = ks2"
        "known_votes post = ks'" by blast
      then have "a # cs = (a # pre) @ c # post \<and> cand_votes c = Some v
          \<and> known_votes (a # pre) = ks \<and> known_votes post = ks'"
        using Some Cons k by (simp add: known_votes_Cons)
      then show ?thesis by blast
    qed
  qed
qed

lemma sum_known_votes:
  "sum_list (map snd (known_votes cs)) =
     sum_list (map (\<lambda>c. the (cand_votes c)) (filter (\<lambda>c. cand_votes c \<noteq> None) cs))"
  by (induction cs) (auto simp: known_votes_Cons split: option.splits)

lemma finalize_fields:
  "c_constituency (finalize (name, d)) = name"
  "c_candidates (finalize (name, d)) = g_candidates d"
  "c_total_votes (finalize (name, d)) = sum_list (map snd (known_votes (g_candidates d)))"
  "c_winner (finalize (name, d)) = make_winner (py_max snd (known_votes (g_candidates d)))"
  by (simp_all add: finalize_def Let_def)

lemma winner_none:
  assumes "\<forall>c \<in> set cs. cand_votes c = None"
  shows "make_winner (py_max snd (known_votes cs))
           = \<lparr> w_candidate = None, w_party = None, w_votes = None \<rparr>"
proof -
  have "known_votes cs = []" using assms by (simp add: known_votes_empty)
  then show ?thesis by (simp add: py_max_def make_winner_def)
qed

lemma winner_first_max:
  assumes "\<exists>c \<in> set cs. cand_votes c \<noteq> None"
  shows "\<exists>pre c post m. cs = pre @ c # post \<and> cand_votes c = Some m
           \<and> make_winner (py_max snd (known_votes cs))
               = \<lparr> w_candidate = Some (cand_name c), w_party = Some (cand_party c),
                   w_votes = Some m \<rparr>
           \<and> (\<forall>x \<in> set pre. \<forall>v. cand_votes x = Some v \<longrightarrow> v < m)
           \<and> (\<forall>x \<in> set post. \<forall>v. cand_votes x = Some v \<longrightarrow> v \<le> m)"
proof -
  have "known_votes cs \<noteq> []" using assms by (simp add: known_votes_empty)
  then obtain w where w: "py_max snd (known_votes cs) = Some w"
    using py_max_None [of snd "known_votes cs"] by (cases "py_max snd (known_votes cs)") auto
  obtain c m where cm: "w = (c, m)" by (cases w)
  from py_max_split [OF w] obtain kpre kpost where
    k: "known_votes cs = kpre @ (c, m) # kpost"
    and lt: "\<forall>x \<in> set kpre. snd x < m" and le: "\<forall>x \<in> set kpost. snd x \<le> m"
    unfolding cm by auto
  from known_votes_split [OF k] obtain pre post where
    s: "cs = pre @ c # post" "cand_votes c = Some m"
      "known_votes pre = kpre" "known_votes post = kpost"
    by blast
  have a: "\<forall>x \<in> set pre. \<forall>v. cand_votes x = Some v \<longrightarrow> v < m"
    using lt s(3) known_votes_set [of _ _ pre] by fastforce
  have b: "\<forall>x \<in> set post. \<forall>v. cand_votes x = Some v \<longrightarrow> v \<le> m"
    using le s(4) known_votes_set [of _ _ post] by fastforce
  have "make_winner (py_max snd (known_votes cs))
          = \<lparr> w_candidate = Some (cand_name c), w_party = Some (cand_party c),
              w_votes = Some m \<rparr>"
    by (simp add: w cm make_winner_def)
  then show ?thesis using s(1,2) a b by blast
qed

section \<open>The extractor on the sample table\<close>

lemma sample_table_result:
  "map_sum id (map (\<lambda>g. (c_constituency g, map cand_name (c_candidates g),
                          c_total_votes g, w_votes (c_winner g))))
     (parse_by_constituency_table sample_env sample_table)
   = Inr [(ascii ''Carriacou'', [ascii ''Alice'', ascii ''Dora''], 3500, Some 2500),
          (ascii ''St. George'', [ascii ''Carl''], 0, None)]"
  by code_simp


lemma parse_by_constituency_table_result:
  assumes "parse_by_constituency_table env t = Inr res"
  shows "res = [] \<or>
         (\<exists>cols rows st. run_rows env cols \<lparr>constituencies = [], current_constituency = None\<rparr> rows = Inr st
            \<and> res = map finalize (constituencies st))"
proof (cases "t = []")
  case True
  then show ?thesis using assms by (simp add: parse_by_constituency_table_def)
next
  case ne: False
  show ?thesis
  proof (cases "find_header env (ascii ''constituency'') t")
    case None
    then show ?thesis using assms ne by (simp add: parse_by_constituency_table_def)
  next
    case (Some i)
    show ?thesis
    proof (cases "expand_headers env (find_all_th (t ! i))")
      case (Inl e)
      then show ?thesis using assms ne Some by (simp add: parse_by_constituency_table_def)
    next
      case (Inr headers)
      show ?thesis
      proof (cases "run_rows env (constituency_columns env headers)
                      \<lparr>constituencies = [], current_constituency = None\<rparr> (drop (i + 1) t)")
        case (Inl e)
        then show ?thesis
          using assms ne Some Inr by (simp add: parse_by_constituency_table_def)
      next
        case st: (Inr st)
        then have "res = map finalize (constituencies st)"
          using assms ne Some Inr by (simp add: parse_by_constituency_table_def)
        then show ?thesis using st by blast
      qed
    qed
  qed
qed

lemma finalize_ex: "\<exists>name d. item = (name, d)"
  by (cases item) simp

text \<open>
  C4. In every group the constituency extractor returns, \<open>total_votes\<close> is the sum of the
  vote counts of exactly the candidates whose votes are known. If no candidate has a known
  vote count, the winner's candidate, party and votes are all \<open>None\<close>. Otherwise the winner
  is a candidate with a known vote count \<open>m\<close> such that every candidate before it has fewer
  votes (or none known) and every candidate after it has at most \<open>m\<close>: the first one with
  the maximum. For candidate votes \<open>[1000, None, 2500]\<close> the total is 3500 and the winner's
  votes are 2500.
\<close>

theorem total_votes_and_winner:
  "(parse_by_constituency_table env t = Inr res \<longrightarrow>
      (\<forall>g \<in> set res.
         c_total_votes g =
           sum_list (map (\<lambda>c. the (cand_votes c))
                       (filter (\<lambda>c. cand_votes c \<noteq> None) (c_candidates g)))
         \<and> ((\<forall>c \<in> set (c_candidates g). cand_votes c = None) \<longrightarrow>
              c_winner g = \<lparr> w_candidate = None, w_party = None, w_votes = None \<rparr>)
         \<and> ((\<exists>c \<in> set (c_candidates g). cand_votes c \<noteq> None) \<longrightarrow>
              (\<exists>pre c post m. c_candidates g = pre @ c # post \<and> cand_votes c = Some m
                 \<and> c_winner g = \<lparr> w_candidate = Some (cand_name c),
                                   w_party = Some (cand_party c), w_votes = Some m \<rparr>
                 \<and> (\<forall>x \<in> set pre. \<forall>v. cand_votes x = Some v \<longrightarrow> v < m)
                 \<and> (\<forall>x \<in> set post. \<forall>v. cand_votes x = Some v \<longrightarrow> v \<le> m)))))
   \<and> (map cand_votes (g_candidates d) = [Some 1000, None, Some 2500] \<longrightarrow>
        c_total_votes (finalize (n, d)) = 3500
        \<and> w_votes (c_winner (finalize (n, d))) = Some 2500)"
proof -
  have fin: "c_total_votes (finalize item) =
           sum_list (map (\<lambda>c. the (cand_votes c))
                       (filter (\<lambda>c. cand_votes c \<noteq> None) (c_candidates (finalize item))))
         \<and> ((\<forall>c \<in> set (c_candidates (finalize item)). cand_votes c = None) \<longrightarrow>
              c_winner (finalize item) = \<lparr> w_candidate = None, w_party = None, w_votes = None \<rparr>)
         \<and> ((\<exists>c \<in> set (c_candidates (finalize item)). cand_votes c \<noteq> None) \<longrightarrow>
              (\<exists>pre c post m. c_candidates (finalize item) = pre @ c # post \<and> cand_votes c = Some m
                 \<and> c_winner (finalize item) = \<lparr> w_candidate = Some (cand_name c),
                                   w_party = Some (cand_party c), w_votes = Some m \<rparr>
                 \<and> (\<forall>x \<in> set pre. \<forall>v. cand_votes x = Some v \<longrightarrow> v < m)
                 \<and> (\<forall>x \<in> set post. \<forall>v. cand_votes x = Some v \<longrightarrow> v \<le> m)))" for item
  proof -
    obtain name d where item: "item = (name, d)" by (cases item)
    show ?thesis
      unfolding item finalize_fields
      using sum_known_votes [of "g_candidates d"] winner_none [of "g_candidates d"]
        winner_first_max [of "g_candidates d"]
      by blast
  qed
  have a: "\<forall>g \<in> set res.
         c_total_votes g =
           sum_list (map (\<lambda>c. the (cand_votes c))
                       (filter (\<lambda>c. cand_votes c \<noteq> None) (c_candidates g)))
         \<and> ((\<forall>c \<in> set (c_candidates g). cand_votes c = None) \<longrightarrow>
              c_winner g = \<lparr> w_candidate = None, w_party = None, w_votes = None \<rparr>)
         \<and> ((\<exists>c \<in> set (c_candidates g). cand_votes c \<noteq> None) \<longrightarrow>
              (\<exists>pre c post m. c_candidates g = pre @ c # post \<and> cand_votes c = Some m
                 \<and> c_winner g = \<lparr> w_candidate = Some (cand_name c),
                                   w_party = Some (cand_party c), w_votes = Some m \<rparr>
                 \<and> (\<forall>x \<in> set pre. \<forall>v. cand_votes x = Some v \<longrightarrow> v < m)
                 \<and> (\<forall>x \<in> set post. \<forall>v. cand_votes x = Some v \<longrightarrow> v \<le> m)))"
    if "parse_by_constituency_table env t = Inr res"
  proof
    fix g assume g: "g \<in> set res"
    from parse_by_constituency_table_result [OF that] g
    obtain item where "g = finalize item" by auto
    then show "c_total_votes g =
           sum_list (map (\<lambda>c. the (cand_votes c))
                       (filter (\<lambda>c. cand_votes c \<noteq> None) (c_candidates g)))
         \<and> ((\<forall>c \<in> set (c_candidates g). cand_votes c = None) \<longrightarrow>
              c_winner g = \<lparr> w_candidate = None, w_party = None, w_votes = None \<rparr>)
         \<and> ((\<exists>c \<in> set (c_candidates g). cand_votes c \<noteq> None) \<longrightarrow>
              (\<exists>pre c post m. c_candidates g = pre @ c # post \<and> cand_votes c = Some m
                 \<and> c_winner g = \<lparr> w_candidate = Some (cand_name c),
                                   w_party = Some (cand_party c), w_votes = Some m \<rparr>
                 \<and> (\<forall>x \<in> set pre. \<forall>v. cand_votes x = Some v \<longrightarrow> v < m)
                 \<and> (\<forall>x \<in> set post. \<forall>v. cand_votes x = Some v \<longrightarrow> v \<le> m)))"
      using fin [of item] by simp
  qed
  have b: "c_total_votes (finalize (n, d)) = 3500
        \<and> w_votes (c_winner (finalize (n, d))) = Some 2500"
    if "map cand_votes (g_candidates d) = [Some 1000, None, Some 2500]"
  proof -
    from that obtain c1 c2 c3 where cs: "g_candidates d = [c1, c2, c3]"
      and v: "cand_votes c1 = Some 1000" "cand_votes c2 = None" "cand_votes c3 = Some 2500"
      by (auto simp: map_eq_Cons_conv)
    have k: "known_votes (g_candidates d) = [(c1, 1000), (c3, 2500)]"
      by (simp add: cs known_votes_Cons v)
    show ?thesis
      unfolding finalize_fields k by (simp add: py_max_def make_winner_def)
  qed
  show ?thesis using a b by blast
qed

theorem total_votes_and_winner_witness:
  "\<exists>res. parse_by_constituency_table sample_env sample_table = Inr res
     \<and> map (\<lambda>g. (c_total_votes g, w_votes (c_winner g))) res = [(3500, Some 2500), (0, None)]
     \<and> (\<forall>g \<in> set res.
          c_total_votes g =
            sum_list (map (\<lambda>c. the (cand_votes c))
                        (filter (\<lambda>c. cand_votes c \<noteq> None) (c_candidates g))))"
proof -
  obtain res where r: "parse_by_constituency_table sample_env sample_table = Inr res"
    "map (\<lambda>g. (c_total_votes g, w_votes (c_winner g))) res = [(3500, Some 2500), (0, None)]"
    using sample_table_result
    by (cases "parse_by_constituency_table sample_env sample_table") auto
  from total_votes_and_winner [of sample_env sample_table res] r(1)
  have "\<forall>g \<in> set res.
          c_total_votes g =
            sum_list (map (\<lambda>c. the (cand_votes c))
                        (filter (\<lambda>c. cand_votes c \<noteq> None) (c_candidates g)))"
    by blast
  then show ?thesis using r by (intro exI [of _ res]) simp
qed


section \<open>Unique constituency names\<close>

lemma append_candidate_absent:
  "name \<notin> set (map fst groups) \<Longrightarrow> append_candidate name c groups = groups"
  by (induction groups) (auto simp: append_candidate_def)

lemma append_candidate_new:
  assumes "name \<notin> set (map fst groups)" "g_candidates g = []"
  shows "append_candidate name c (groups @ [(name, g)]) = groups @ [(name, g\<lparr>g_candidates := [c]\<rparr>)]"
proof -
  have "append_candidate name c (groups @ [(name, g)])
          = append_candidate name c groups @ append_candidate name c [(name, g)]"
    by (simp add: append_candidate_def)
  then show ?thesis
    using assms by (simp add: append_candidate_absent) (simp add: append_candidate_def)
qed

lemma process_row_groups:
  assumes "process_row env cols st r = Inr (out, st')"
  shows "(out \<noteq> Appended \<longrightarrow> constituencies st' = constituencies st)
       \<and> (out = Appended \<longrightarrow>
            (\<exists>name c. current_constituency st' = Some name \<and> row_candidate env cols r = Inr c
               \<and> (name \<in> set (map fst (constituencies st)) \<longrightarrow>
                    constituencies st' = append_candidate name c (constituencies st))
               \<and> (name \<notin> set (map fst (constituencies st)) \<longrightarrow>
                    (\<exists>g. constituencies st'
                            = constituencies st @ [(name, g\<lparr>g_candidates := [c]\<rparr>)]))))"
proof (rule process_row_cases [where r = r and env = env and cols = cols and st = st])
  fix name c
  assume old: "name \<in> set (map fst (constituencies st))"
    and c: "row_candidate env cols r = Inr c"
    and p: "process_row env cols st r =
         Inr (Appended,
              \<lparr>constituencies = append_candidate name c (constituencies st),
               current_constituency = Some name\<rparr>)"
  have out: "out = Appended"
    and st': "st' = \<lparr>constituencies = append_candidate name c (constituencies st),
                     current_constituency = Some name\<rparr>"
    using assms p by simp_all
  have "current_constituency st' = Some name \<and> row_candidate env cols r = Inr c
      \<and> (name \<in> set (map fst (constituencies st)) \<longrightarrow>
            constituencies st' = append_candidate name c (constituencies st))
      \<and> (name \<notin> set (map fst (constituencies st)) \<longrightarrow>
            (\<exists>g. constituencies st' = constituencies st @ [(name, g\<lparr>g_candidates := [c]\<rparr>)]))"
    using c old unfolding st' by simp
  then show ?thesis using out by blast
next
  fix name g c
  assume new: "name \<notin> set (map fst (constituencies st))"
    and g: "new_group env cols r name = Inr g"
    and c: "row_candidate env cols r = Inr c"
    and p: "process_row env cols st r =
         Inr (Appended,
              \<lparr>constituencies = append_candidate name c (constituencies st @ [(name, g)]),
               current_constituency = Some name\<rparr>)"
  have out: "out = Appended"
    and st': "st' = \<lparr>constituencies =
                       append_candidate name c (constituencies st @ [(name, g)]),
                     current_constituency = Some name\<rparr>"
    using assms p by simp_all
  note e = append_candidate_new [OF new new_group_fields(2) [OF g], of c]
  have "current_constituency st' = Some name \<and> row_candidate env cols r = Inr c
      \<and> (name \<in> set (map fst (constituencies st)) \<longrightarrow>
            constituencies st' = append_candidate name c (constituencies st))
      \<and> (name \<notin> set (map fst (constituencies st)) \<longrightarrow>
            (\<exists>g. constituencies st' = constituencies st @ [(name, g\<lparr>g_candidates := [c]\<rparr>)]))"
    using c new e unfolding st' by auto
  then show ?thesis using out by blast
qed (use assms in auto)

lemma process_row_keys:
  assumes "process_row env cols st r = Inr (out, st')"
  shows "map fst (constituencies st') = map fst (constituencies st)
       \<or> (\<exists>name. name \<notin> set (map fst (constituencies st))
             \<and> map fst (constituencies st') = map fst (constituencies st) @ [name])"
proof (cases "out = Appended")
  case False
  then show ?thesis using process_row_groups [OF assms] by simp
next
  case True
  with process_row_groups [OF assms] obtain name c where
    a: "name \<in> set (map fst (constituencies st)) \<longrightarrow>
          constituencies st' = append_candidate name c (constituencies st)"
    and b: "name \<notin> set (map fst (constituencies st)) \<longrightarrow>
          (\<exists>g. constituencies st' = constituencies st @ [(name, g\<lparr>g_candidates := [c]\<rparr>)])"
    by blast
  show ?thesis
  proof (cases "name \<in> set (map fst (constituencies st))")
    case True
    then show ?thesis using a by simp
  next
    case False
    then obtain g where "constituencies st' = constituencies st @ [(name, g\<lparr>g_candidates := [c]\<rparr>)]"
      using b by blast
    then have "map fst (constituencies st') = map fst (constituencies st) @ [name]" by simp
    then show ?thesis using False by blast
  qed
qed

lemma process_row_distinct:
  assumes "process_row env cols st r = Inr (out, st')" "distinct (map fst (constituencies st))"
  shows "distinct (map fst (constituencies st'))"
    and "prefix (map fst (constituencies st)) (map fst (constituencies st'))"
  using process_row_keys [OF assms(1)] assms(2) by auto

lemma run_rows_distinct:
  assumes "run_rows env cols st rows = Inr st'" "distinct (map fst (constituencies st))"
  shows "distinct (map fst (constituencies st'))
       \<and> prefix (map fst (constituencies st)) (map fst (constituencies st'))"
  using assms
proof (induction rows arbitrary: st)
  case Nil
  then show ?case by simp
next
  case (Cons r rows)
  obtain out st1 where p: "process_row env cols st r = Inr (out, st1)"
    and rest: "run_rows env cols st1 rows = Inr st'"
    using Cons.prems(1) by (cases "process_row env cols st r") auto
  note d = process_row_distinct [OF p Cons.prems(2)]
  from Cons.IH [OF rest d(1)] d(2) show ?case
    using prefix_order.trans by blast
qed

lemma finalize_names: "map c_constituency (map finalize groups) = map fst groups"
  by (induction groups) (auto simp: finalize_def Let_def)

lemma process_row_groups_map:
  assumes "process_row env cols st r = Inr (out, st')"
  shows "(out \<noteq> Appended \<longrightarrow> constituencies st' = constituencies st)
       \<and> (out = Appended \<longrightarrow>
            (\<exists>name c. current_constituency st' = Some name \<and> row_candidate env cols r = Inr c
               \<and> (name \<in> set (map fst (constituencies st)) \<longrightarrow>
                    constituencies st' =
                      map (\<lambda>(k, g). if k = name
                                     then (k, g\<lparr>g_candidates := g_candidates g @ [c]\<rparr>)
                                     else (k, g)) (constituencies st))
               \<and> (name \<notin> set (map fst (constituencies st)) \<longrightarrow>
                    (\<exists>g. constituencies st'
                            = constituencies st @ [(name, g\<lparr>g_candidates := [c]\<rparr>)]))))"
  using process_row_groups [OF assms] unfolding append_candidate_def .

lemma parse_by_constituency_table_distinct:
  assumes "parse_by_constituency_table env t = Inr res"
  shows "distinct (map c_constituency res)"
  using parse_by_constituency_table_result [OF assms]
proof
  assume "res = []"
  then show ?thesis by simp
next
  assume "\<exists>cols rows st.
            run_rows env cols \<lparr>constituencies = [], current_constituency = None\<rparr> rows = Inr st
            \<and> res = map finalize (constituencies st)"
  then obtain cols rows st where
    r: "run_rows env cols \<lparr>constituencies = [], current_constituency = None\<rparr> rows = Inr st"
    and res: "res = map finalize (constituencies st)"
    by blast
  from run_rows_distinct [OF r] have "distinct (map fst (constituencies st))" by simp
  then show ?thesis by (simp only: res finalize_names)
qed

text \<open>
  C8. The constituency names in the list the extractor returns are pairwise different. A
  row whose name is already the key of a group appends its candidate to that group and
  leaves every other group and the order of the groups as they were; a row with a new name
  adds one group at the end. Over any run of rows the names already present stay where
  they are, so the groups are in the order in which their names first occurred.
\<close>

theorem constituency_names_unique:
  "(parse_by_constituency_table env t = Inr res \<longrightarrow> distinct (map c_constituency res))
   \<and> (\<forall>out st'. process_row env cols st r = Inr (out, st')
          \<and> distinct (map fst (constituencies st)) \<longrightarrow>
        distinct (map fst (constituencies st'))
        \<and> ((out \<noteq> Appended \<longrightarrow> constituencies st' = constituencies st)
        \<and> (out = Appended \<longrightarrow>
             (\<exists>name c. current_constituency st' = Some name \<and> row_candidate env cols r = Inr c
                \<and> (name \<in> set (map fst (constituencies st)) \<longrightarrow>
                     constituencies st' =
                       map (\<lambda>(k, g). if k = name
                                      then (k, g\<lparr>g_candidates := g_candidates g @ [c]\<rparr>)
                                      else (k, g)) (constituencies st))
                \<and> (name \<notin> set (map fst (constituencies st)) \<longrightarrow>
                     (\<exists>g. constituencies st'
                             = constituencies st @ [(name, g\<lparr>g_candidates := [c]\<rparr>)]))))))
   \<and> (\<forall>st'. run_rows env cols st rows = Inr st' \<and> distinct (map fst (constituencies st)) \<longrightarrow>
        prefix (map fst (constituencies st)) (map fst (constituencies st')))"
  (is "?A \<and> ?B \<and> ?C")
proof -
  have A: ?A
    using parse_by_constituency_table_distinct by (rule impI)
  have B: ?B
  proof (intro allI impI)
    fix out st'
    assume h: "process_row env cols st r = Inr (out, st') \<and> distinct (map fst (constituencies st))"
    then have p: "process_row env cols st r = Inr (out, st')"
      and d: "distinct (map fst (constituencies st))"
      by simp_all
    from process_row_distinct(1) [OF p d] process_row_groups_map [OF p]
    show "distinct (map fst (constituencies st'))
        \<and> ((out \<noteq> Appended \<longrightarrow> constituencies st' = constituencies st)
        \<and> (out = Appended \<longrightarrow>
             (\<exists>name c. current_constituency st' = Some name \<and> row_candidate env cols r = Inr c
                \<and> (name \<in> set (map fst (constituencies st)) \<longrightarrow>
                     constituencies st' =
                       map (\<lambda>(k, g). if k = name
                                      then (k, g\<lparr>g_candidates := g_candidates g @ [c]\<rparr>)
                                      else (k, g)) (constituencies st))
                \<and> (name \<notin> set (map fst (constituencies st)) \<longrightarrow>
                     (\<exists>g. constituencies st'
                             = constituencies st @ [(name, g\<lparr>g_candidates := [c]\<rparr>)])))))"
      by (rule conjI)
  qed
  have C: ?C
  proof (intro allI impI)
    fix st'
    assume h: "run_rows env cols st rows = Inr st' \<and> distinct (map fst (constituencies st))"
    then have "run_rows env cols st rows = Inr st'" "distinct (map fst (constituencies st))"
      by simp_all
    from run_rows_distinct [OF this]
    show "prefix (map fst (constituencies st)) (map fst (constituencies st'))"
      by (rule conjunct2)
  qed
  from A B C show ?thesis by (intro conjI)
qed

theorem constituency_names_unique_witness:
  "\<exists>res. parse_by_constituency_table sample_env sample_table = Inr res
     \<and> map (\<lambda>g. (c_constituency g, map cand_name (c_candidates g))) res
         = [(ascii ''Carriacou'', [ascii ''Alice'', ascii ''Dora'']),
            (ascii ''St. George'', [ascii ''Carl''])]
     \<and> distinct (map c_constituency res)"
proof -
  obtain res where r: "parse_by_constituency_table sample_env sample_table = Inr res"
    "map (\<lambda>g. (c_constituency g, map cand_name (c_candidates g))) res
         = [(ascii ''Carriacou'', [ascii ''Alice'', ascii ''Dora'']),
            (ascii ''St. George'', [ascii ''Carl''])]"
    using sample_table_result
    by (cases "parse_by_constituency_table sample_env sample_table") auto
  from constituency_names_unique [of sample_env sample_table res] r(1)
  have "distinct (map c_constituency res)" by blast
  then show ?thesis using r by (intro exI [of _ res]) simp
qed


end
